theory Spec2Isabelle
  imports Complex_Main "HOL-Library.Word"
begin

unbundle bit_operations_syntax

section \<open>A Bloom filter in Go: the embedding\<close>

text \<open>
  The program is the Go package \<^verbatim>\<open>bloom\<close>: a filter record, its constructor \<^verbatim>\<open>New\<close>,
  the operations \<^verbatim>\<open>Add\<close> and \<^verbatim>\<open>Has\<close>, and the helpers \<^verbatim>\<open>optimalBitLen\<close>,
  \<^verbatim>\<open>optimalHashQty\<close>, \<^verbatim>\<open>bitpositions\<close>, \<^verbatim>\<open>hash\<close> and \<^verbatim>\<open>bitlocation\<close>.

  Conventions of the embedding.
  \<^item> \<^verbatim>\<open>byte\<close>, \<^verbatim>\<open>uint32\<close> and \<^verbatim>\<open>uint64\<close> are words of 8, 32 and 64 bits; their arithmetic
    wraps around as Go's does. \<^verbatim>\<open>int\<close> is the 64-bit signed integer of the platforms the
    package's tests compile on; a value of that type is given as the HOL integer it denotes.
  \<^item> A byte slice and a Go string are lists of bytes.
  \<^item> A Go result \<^verbatim>\<open>(T, error)\<close> is a pair of the value and an optional error; a run-time
    panic is the left summand of a sum, so a function that may panic returns
    \<open>panic + result\<close>.
  \<^item> A method with a pointer receiver takes the filter and returns it, updated or not.
  \<^item> \<^verbatim>\<open>float64\<close> is idealised: a finite \<^verbatim>\<open>float64\<close> is the real number it denotes, and
    \<^verbatim>\<open>math.Log\<close>, \<^verbatim>\<open>math.Ceil\<close> and the arithmetic are the exact real operations, with no
    rounding. NaN and the infinities are not values of the model. What Go leaves to the
    implementation (the conversion of a float that the integer type cannot hold, the
    largest slice \<^verbatim>\<open>make\<close> allocates) is a parameter, the record \<open>platform\<close>.
\<close>

type_synonym u8 = "8 word"
type_synonym u32 = "32 word"
type_synonym u64 = "64 word"

datatype error = ErrZeroElements | ErrProbability | ErrSyntax | ErrRange

datatype panic = DivideByZero | IndexOutOfRange | SliceBoundsOutOfRange | MakeSliceLenOutOfRange

subsection \<open>The standard library: SHA-256\<close>

text \<open>
  \<^verbatim>\<open>crypto/sha256\<close> is Go's standard library, not code of the package; it is modelled from
  FIPS 180-4. The 32-bit words of the standard are natural numbers below \<open>2 ^ 32\<close> with
  the reduction written out, which keeps every intermediate value small when a digest is
  evaluated.
\<close>

definition add32 :: "nat \<Rightarrow> nat \<Rightarrow> nat" where
  "add32 x y = (x + y) mod 4294967296"

definition rotr :: "nat \<Rightarrow> nat \<Rightarrow> nat" where
  "rotr k x = drop_bit k x OR take_bit 32 (push_bit (32 - k) x)"

definition ch :: "nat \<Rightarrow> nat \<Rightarrow> nat \<Rightarrow> nat" where
  "ch x y z = (x AND y) XOR ((x XOR 0xffffffff) AND z)"

definition maj :: "nat \<Rightarrow> nat \<Rightarrow> nat \<Rightarrow> nat" where
  "maj x y z = (x AND y) XOR (x AND z) XOR (y AND z)"

definition bsig0 :: "nat \<Rightarrow> nat" where
  "bsig0 x = rotr 2 x XOR rotr 13 x XOR rotr 22 x"

definition bsig1 :: "nat \<Rightarrow> nat" where
  "bsig1 x = rotr 6 x XOR rotr 11 x XOR rotr 25 x"

definition ssig0 :: "nat \<Rightarrow> nat" where
  "ssig0 x = rotr 7 x XOR rotr 18 x XOR drop_bit 3 x"

definition ssig1 :: "nat \<Rightarrow> nat" where
  "ssig1 x = rotr 17 x XOR rotr 19 x XOR drop_bit 10 x"

text \<open>
  The round constants: the first 32 bits of the fractional parts of the cube roots of the
  first 64 primes, in decimal (the first is \<open>0x428a2f98\<close>, the last \<open>0xc67178f2\<close>).
\<close>

definition K256 :: "nat list" where
  "K256 =
    [1116352408, 1899447441, 3049323471, 3921009573,
     961987163, 1508970993, 2453635748, 2870763221,
     3624381080, 310598401, 607225278, 1426881987,
     1925078388, 2162078206, 2614888103, 3248222580,
     3835390401, 4022224774, 264347078, 604807628,
     770255983, 1249150122, 1555081692, 1996064986,
     2554220882, 2821834349, 2952996808, 3210313671,
     3336571891, 3584528711, 113926993, 338241895,
     666307205, 773529912, 1294757372, 1396182291,
     1695183700, 1986661051, 2177026350, 2456956037,
     2730485921, 2820302411, 3259730800, 3345764771,
     3516065817, 3600352804, 4094571909, 275423344,
     430227734, 506948616, 659060556, 883997877,
     958139571, 1322822218, 1537002063, 1747873779,
     1955562222, 2024104815, 2227730452, 2361852424,
     2428436474, 2756734187, 3204031479, 3329325298]"

type_synonym sha_state = "nat \<times> nat \<times> nat \<times> nat \<times> nat \<times> nat \<times> nat \<times> nat"

definition sha_init :: sha_state where
  "sha_init = (0x6a09e667, 0xbb67ae85, 0x3c6ef372, 0xa54ff53a,
               0x510e527f, 0x9b05688c, 0x1f83d9ab, 0x5be0cd19)"

fun block_words :: "nat list \<Rightarrow> nat list" where
  "block_words (b0 # b1 # b2 # b3 # bs) =
     (((b0 * 256 + b1) * 256 + b2) * 256 + b3) # block_words bs"
| "block_words bs = []"

text \<open>
  The message schedule is kept as a window of sixteen words: its head is the word of the
  current round, and each round appends the word sixteen rounds ahead.
\<close>

definition next_w :: "nat list \<Rightarrow> nat" where
  "next_w w = add32 (add32 (add32 (ssig1 (w ! 14)) (w ! 9)) (ssig0 (w ! 1))) (w ! 0)"

fun sha_round :: "sha_state \<times> nat list \<Rightarrow> nat \<Rightarrow> sha_state \<times> nat list" where
  "sha_round ((a, b, c, d, e, f, g, h), w) k =
     (let t1 = add32 (add32 (add32 (add32 h (bsig1 e)) (ch e f g)) k) (hd w);
          t2 = add32 (bsig0 a) (maj a b c)
      in ((add32 t1 t2, a, b, c, add32 d t1, e, f, g), tl w @ [next_w w]))"

fun sha_add :: "sha_state \<Rightarrow> sha_state \<Rightarrow> sha_state" where
  "sha_add (a, b, c, d, e, f, g, h) (a', b', c', d', e', f', g', h') =
     (add32 a a', add32 b b', add32 c c', add32 d d',
      add32 e e', add32 f f', add32 g g', add32 h h')"

definition sha_block :: "sha_state \<Rightarrow> nat list \<Rightarrow> sha_state" where
  "sha_block st blk = sha_add st (fst (foldl sha_round (st, block_words blk) K256))"

definition be_bytes32 :: "nat \<Rightarrow> nat list" where
  "be_bytes32 v = [v div 16777216 mod 256, v div 65536 mod 256, v div 256 mod 256, v mod 256]"

definition be_bytes64 :: "nat \<Rightarrow> nat list" where
  "be_bytes64 v = be_bytes32 (v div 4294967296 mod 4294967296) @ be_bytes32 (v mod 4294967296)"

definition sha_pad :: "nat list \<Rightarrow> nat list" where
  "sha_pad msg =
     msg @ [0x80] @ replicate ((119 - length msg mod 64) mod 64) 0
         @ be_bytes64 (8 * length msg)"

fun sha_blocks :: "nat \<Rightarrow> sha_state \<Rightarrow> nat list \<Rightarrow> sha_state" where
  "sha_blocks 0 st bs = st"
| "sha_blocks (Suc k) st bs = sha_blocks k (sha_block st (take 64 bs)) (drop 64 bs)"

fun sha_out :: "sha_state \<Rightarrow> nat list" where
  "sha_out (a, b, c, d, e, f, g, h) = concat (map be_bytes32 [a, b, c, d, e, f, g, h])"

text \<open>\<^verbatim>\<open>h := sha256.New(); h.Write(b); h.Sum(nil)\<close>: the 32 bytes of the digest.\<close>

definition sha256 :: "u8 list \<Rightarrow> u8 list" where
  "sha256 msg =
     (let p = sha_pad (map unat msg)
      in map of_nat (sha_out (sha_blocks (length p div 64) sha_init p)))"

subsection \<open>The standard library: hexadecimal output and input\<close>

text \<open>
  \<^verbatim>\<open>fmt.Sprintf("%x", bs)\<close> writes two lower-case hexadecimal digits for each byte.
\<close>

definition hexdigit :: "u8 \<Rightarrow> u8" where
  "hexdigit d = (if d < 10 then 0x30 + d else 0x61 + (d - 10))"

definition hex_encode :: "u8 list \<Rightarrow> u8 list" where
  "hex_encode bs = concat (map (\<lambda>b. [hexdigit (drop_bit 4 b), hexdigit (b AND 0x0f)]) bs)"

text \<open>
  \<^verbatim>\<open>strconv.ParseUint(s, 16, 64)\<close>, after the loop of the library: a character that is no
  digit of the base is a syntax error, a value that needs more than 64 bits a range
  error (returned with the largest value).
\<close>

definition lower :: "u8 \<Rightarrow> u8" where
  "lower c = c OR 0x20"

definition digit_of :: "u8 \<Rightarrow> u8 option" where
  "digit_of c =
     (if 0x30 \<le> c \<and> c \<le> 0x39 then Some (c - 0x30)
      else if 0x61 \<le> lower c \<and> lower c \<le> 0x7a then Some (lower c - 0x61 + 10)
      else None)"

fun parse_loop :: "u64 \<Rightarrow> u8 list \<Rightarrow> u64 \<times> error option" where
  "parse_loop acc [] = (acc, None)"
| "parse_loop acc (c # cs) =
     (case digit_of c of
        None \<Rightarrow> (0, Some ErrSyntax)
      | Some d \<Rightarrow>
          if 16 \<le> d then (0, Some ErrSyntax)
          else if 0x1000000000000000 \<le> acc then (0xffffffffffffffff, Some ErrRange)
          else
            (let acc16 = acc * 16; acc1 = acc16 + ucast d
             in if acc1 < acc16 then (0xffffffffffffffff, Some ErrRange)
                else parse_loop acc1 cs))"

definition ParseUint :: "u8 list \<Rightarrow> u64 \<times> error option" where
  "ParseUint s = (if s = [] then (0, Some ErrSyntax) else parse_loop 0 s)"

subsection \<open>Positions of an element\<close>

text \<open>
  \<^verbatim>\<open>hash\<close>: the first 16 characters of the digest in hexadecimal, read as a number and
  reduced modulo \<open>blen\<close>. The slice \<^verbatim>\<open>hexdigest[:16]\<close> panics on a shorter string and the
  remainder panics on a zero divisor. \<^verbatim>\<open>h.Write\<close> never returns an error, so that
  branch of the source has no counterpart.
\<close>

definition hash :: "u8 list \<Rightarrow> u64 \<Rightarrow> panic + (u64 \<times> error option)" where
  "hash b blen =
     (let hexdigest = hex_encode (sha256 b)
      in if length hexdigest < 16 then Inl SliceBoundsOutOfRange
         else
           (case ParseUint (take 16 hexdigest) of
              (i, Some err) \<Rightarrow> Inr (0, Some err)
            | (i, None) \<Rightarrow>
                if blen = 0 then Inl DivideByZero else Inr (i mod blen, None)))"

text \<open>
  \<^verbatim>\<open>bitpositions\<close>: the loop \<^verbatim>\<open>for i := byte(0); i < hashqty; i++\<close> over the buffer \<open>b\<close>
  (the element and one more byte) and the slice \<open>pos\<close> of \<open>hashqty\<close> zeros. An error of
  \<^verbatim>\<open>hash\<close> ends the loop, and the positions computed so far are returned with it.
\<close>

function bitpositions_loop ::
  "nat \<Rightarrow> u8 \<Rightarrow> u64 \<Rightarrow> u8 \<Rightarrow> u8 list \<Rightarrow> u64 list \<Rightarrow> panic + (u64 list \<times> error option)" where
  "bitpositions_loop len hqty blen i b pos =
     (if i < hqty then
        (let b' = b[len := i]
         in case hash b' blen of
              Inl pnc \<Rightarrow> Inl pnc
            | Inr (v, Some err) \<Rightarrow> Inr (pos[unat i := v], Some err)
            | Inr (v, None) \<Rightarrow> bitpositions_loop len hqty blen (i + 1) b' (pos[unat i := v]))
      else Inr (pos, None))"
  by pat_completeness auto
termination
proof (relation "measure (\<lambda>(len, hqty, blen, i, b, pos). unat hqty - unat i)")
  show "wf (measure (\<lambda>(len, hqty, blen, i, b, pos). unat hqty - unat i))"
    by simp
next
  fix len :: nat and hqty i :: u8 and blen :: u64 and b b' :: "u8 list" and pos :: "u64 list"
    and x2 x1 x2a
  assume lt: "i < hqty"
  then have "unat i < unat hqty"
    by (simp add: word_less_nat_alt)
  moreover have "unat hqty < 256"
    using unsigned_less [of hqty, where 'a = nat] by simp
  ultimately have "unat (i + 1) = unat i + 1"
    by (simp add: unat_word_ariths)
  with lt have "unat hqty - unat (i + 1) < unat hqty - unat i"
    by (simp add: word_less_nat_alt)
  then show "((len, hqty, blen, i + 1, b', pos[unat i := x1]), (len, hqty, blen, i, b, pos))
      \<in> measure (\<lambda>(len, hqty, blen, i, b, pos). unat hqty - unat i)"
    by simp
qed

declare bitpositions_loop.simps [simp del]

definition bitpositions :: "u8 list \<Rightarrow> u8 \<Rightarrow> u64 \<Rightarrow> panic + (u64 list \<times> error option)" where
  "bitpositions element hqty blen =
     bitpositions_loop (length element) hqty blen 0 (element @ [0]) (replicate (unat hqty) 0)"

text \<open>
  \<^verbatim>\<open>bitlocation\<close>: the index of the bucket and the offset in it. The results are
  converted, \<^verbatim>\<open>int(index)\<close> to the signed 64-bit integer with the same bits and
  \<^verbatim>\<open>byte(offset)\<close> to the low eight bits.
\<close>

definition bitlocation :: "u64 \<Rightarrow> u8 \<Rightarrow> int \<times> u8" where
  "bitlocation p bitsize =
     (let bitsize' = (if bitsize = 0 then 8 else bitsize);
          index = p div ucast bitsize';
          offset = p - index * ucast bitsize'
      in (sint index, ucast offset))"

subsection \<open>The filter\<close>

text \<open>
  The struct \<^verbatim>\<open>Filter\<close>. Its field \<^verbatim>\<open>n\<close> is the field \<open>nelems\<close> of the record.
\<close>

record Filter =
  prob :: real
  bitlen :: u64
  hashqty :: u8
  nelems :: u32
  bitstore :: "u64 list"

text \<open>
  The loop of \<^verbatim>\<open>Add\<close> over the positions: \<^verbatim>\<open>bf.bitstore[index] |= 1 << offset\<close>, which
  panics when the index is not one of the slice. A shift by 64 or more gives zero in Go,
  as \<open>push_bit\<close> does on a word.
\<close>

fun add_loop :: "u64 list \<Rightarrow> u64 list \<Rightarrow> panic + u64 list" where
  "add_loop [] store = Inr store"
| "add_loop (p # ps) store =
     (let (index, offset) = bitlocation p 64;
          mask = push_bit (unat offset) (1 :: u64)
      in if index < 0 \<or> int (length store) \<le> index then Inl IndexOutOfRange
         else add_loop ps (store[nat index := (store ! nat index) OR mask]))"

definition Add :: "Filter \<Rightarrow> u8 list \<Rightarrow> panic + (Filter \<times> error option)" where
  "Add bf element =
     (case bitpositions element (hashqty bf) (bitlen bf) of
        Inl pnc \<Rightarrow> Inl pnc
      | Inr (pos, Some err) \<Rightarrow> Inr (bf, Some err)
      | Inr (pos, None) \<Rightarrow>
          (case add_loop pos (bitstore bf) of
             Inl pnc \<Rightarrow> Inl pnc
           | Inr store \<Rightarrow> Inr (bf\<lparr>bitstore := store\<rparr>, None)))"

text \<open>
  The loop of \<^verbatim>\<open>Has\<close>: it returns \<^verbatim>\<open>false\<close> at the first position whose bit is not set.
  \<^verbatim>\<open>Has\<close> has the filter's pointer as \<^verbatim>\<open>Add\<close> has, so the model returns the filter
  too: the slice it was given, never written.
\<close>

fun has_loop :: "u64 list \<Rightarrow> u64 list \<Rightarrow> panic + (u64 list \<times> bool)" where
  "has_loop [] store = Inr (store, True)"
| "has_loop (p # ps) store =
     (let (index, offset) = bitlocation p 64;
          mask = push_bit (unat offset) (1 :: u64)
      in if index < 0 \<or> int (length store) \<le> index then Inl IndexOutOfRange
         else if (store ! nat index) AND mask = 0 then Inr (store, False)
         else has_loop ps store)"

definition Has :: "Filter \<Rightarrow> u8 list \<Rightarrow> panic + (Filter \<times> bool \<times> error option)" where
  "Has bf element =
     (case bitpositions element (hashqty bf) (bitlen bf) of
        Inl pnc \<Rightarrow> Inl pnc
      | Inr (pos, Some err) \<Rightarrow> Inr (bf, False, Some err)
      | Inr (pos, None) \<Rightarrow>
          (case has_loop pos (bitstore bf) of
             Inl pnc \<Rightarrow> Inl pnc
           | Inr (store, isIn) \<Rightarrow> Inr (bf\<lparr>bitstore := store\<rparr>, isIn, None)))"

subsection \<open>Sizing and construction\<close>

text \<open>
  What the Go specification leaves to the implementation. The conversion of a float to
  an unsigned integer type discards the fraction; when the integer type cannot hold the
  result, "the conversion succeeds but the result value is implementation-dependent":
  \<open>u64_of_unrepresentable\<close> and \<open>u8_of_unrepresentable\<close> give that value. \<^verbatim>\<open>make\<close> panics
  when asked for more elements than the runtime can address: \<open>max_slice_len\<close>.
\<close>

record platform =
  u64_of_unrepresentable :: "real \<Rightarrow> u64"
  u8_of_unrepresentable :: "real \<Rightarrow> u8"
  max_slice_len :: nat

definition trunc :: "real \<Rightarrow> int" where
  "trunc x = (if 0 \<le> x then \<lfloor>x\<rfloor> else \<lceil>x\<rceil>)"

definition uint64_of_float :: "platform \<Rightarrow> real \<Rightarrow> u64" where
  "uint64_of_float pf x =
     (if 0 \<le> trunc x \<and> trunc x < 2 ^ 64 then word_of_int (trunc x)
      else u64_of_unrepresentable pf x)"

definition byte_of_float :: "platform \<Rightarrow> real \<Rightarrow> u8" where
  "byte_of_float pf x =
     (if 0 \<le> trunc x \<and> trunc x < 2 ^ 8 then word_of_int (trunc x)
      else u8_of_unrepresentable pf x)"

definition optimalBitLen :: "platform \<Rightarrow> u32 \<Rightarrow> real \<Rightarrow> u64" where
  "optimalBitLen pf n p =
     (let ln2 = ln 2;
          optLen = - real (unat n) * ln p / (ln2 * ln2)
      in uint64_of_float pf (of_int \<lceil>optLen\<rceil>))"

definition optimalHashQty :: "platform \<Rightarrow> real \<Rightarrow> u8" where
  "optimalHashQty pf p =
     (let optQty = - ln p / ln 2
      in byte_of_float pf (of_int \<lceil>optQty\<rceil>))"

text \<open>
  \<^verbatim>\<open>New\<close> returns a pointer and an error: the pointer is \<^verbatim>\<open>nil\<close> (\<open>None\<close>) with an error.
\<close>

definition New :: "platform \<Rightarrow> u32 \<Rightarrow> real \<Rightarrow> panic + (Filter option \<times> error option)" where
  "New pf n p =
     (if n = 0 then Inr (None, Some ErrZeroElements)
      else if p \<le> 0 then Inr (None, Some ErrProbability)
      else
        (let hq = optimalHashQty pf p;
             bl = optimalBitLen pf n p;
             buckets = (if bl mod 64 \<noteq> 0 then bl div 64 + 1 else bl div 64)
         in if max_slice_len pf < unat buckets then Inl MakeSliceLenOutOfRange
            else Inr (Some \<lparr>prob = p, bitlen = bl, hashqty = hq, nelems = n,
                            bitstore = replicate (unat buckets) 0\<rparr>, None)))"

text \<open>
  The compiler and runtime of Go on amd64: a negative float below \<open>2 ^ 63\<close> in size is
  converted as a signed integer and its bits are kept, any other unrepresentable one
  gives \<open>2 ^ 63\<close>; the heap addresses 48 bits, which is \<open>2 ^ 45\<close> words of eight bytes.
\<close>

definition amd64 :: platform where
  "amd64 =
     \<lparr>u64_of_unrepresentable =
        (\<lambda>x. if - (2 ^ 63) \<le> trunc x \<and> trunc x < 0 then word_of_int (trunc x) else 2 ^ 63),
      u8_of_unrepresentable =
        (\<lambda>x. if - (2 ^ 31) \<le> trunc x \<and> trunc x < 2 ^ 31 then word_of_int (trunc x) else 0),
      max_slice_len = 2 ^ 45\<rparr>"

subsection \<open>Notions of the claims\<close>

text \<open>
  What the claims speak of and the program has no name for: whether the bit of a position
  is set in a store, the set of the bits of a store that are 1, a sequence of calls of
  \<^verbatim>\<open>Add\<close> (each on the filter the one before left, whatever error it returned), the
  digits of a byte string in hexadecimal, and the position of an element for an index as
  the specification defines it: the value of the first 16 hexadecimal digits of the
  digest of the element followed by the index byte, modulo the bit length.
\<close>

definition bit_at :: "u64 list \<Rightarrow> u64 \<Rightarrow> bool" where
  "bit_at store p =
     (let (index, offset) = bitlocation p 64
      in 0 \<le> index \<and> index < int (length store) \<and> bit (store ! nat index) (unat offset))"

definition ones :: "u64 list \<Rightarrow> (nat \<times> nat) set" where
  "ones store = {(i, j). i < length store \<and> bit (store ! i) j}"

fun add_all :: "Filter \<Rightarrow> u8 list list \<Rightarrow> panic + Filter" where
  "add_all bf [] = Inr bf"
| "add_all bf (e # es) =
     (case Add bf e of Inl pnc \<Rightarrow> Inl pnc | Inr (bf', err) \<Rightarrow> add_all bf' es)"

definition nibbles :: "u8 list \<Rightarrow> u8 list" where
  "nibbles bs = concat (map (\<lambda>b. [drop_bit 4 b, b AND 0x0f]) bs)"

definition hex_digit_value :: "u8 \<Rightarrow> nat" where
  "hex_digit_value c = (if unat c < 58 then unat c - 48 else unat c - 87)"

definition hex_value :: "u8 list \<Rightarrow> nat" where
  "hex_value s = foldl (\<lambda>a c. 16 * a + hex_digit_value c) 0 s"

definition position_spec :: "u8 list \<Rightarrow> nat \<Rightarrow> nat \<Rightarrow> nat" where
  "position_spec element i m =
     hex_value (take 16 (hex_encode (sha256 (element @ [of_nat i])))) mod m"


text \<open>
  The smallest positive \<^verbatim>\<open>float64\<close>, which bounds the probabilities \<^verbatim>\<open>New\<close> can be given
  from below, and the number of buckets \<^verbatim>\<open>New\<close> computes for a bit length.
\<close>

definition min_float64 :: real where
  "min_float64 = 1 / 2 ^ 1074"

definition buckets_for :: "u64 \<Rightarrow> u64" where
  "buckets_for bl = (if bl mod 64 \<noteq> 0 then bl div 64 + 1 else bl div 64)"


section \<open>Words and conversions\<close>

lemma unat_ucast_u8_u64: "unat (ucast (w :: u8) :: u64) = unat w"
proof -
  have "unat w < 2 ^ 64"
    using unsigned_less [of w, where 'a = nat] by simp
  then show ?thesis
    by (simp add: unsigned_ucast_eq take_bit_nat_eq_self)
qed

lemma unat_ucast_u64_u8: "unat (y :: u64) < 256 \<Longrightarrow> unat (ucast y :: u8) = unat y"
  by (simp add: unsigned_ucast_eq take_bit_nat_eq_self)

lemma sint_small: "unat (x :: u64) < 2 ^ 63 \<Longrightarrow> sint x = int (unat x)"
proof -
  assume "unat x < 2 ^ 63"
  then have "int (unat x) < int (2 ^ 63)"
    by (simp only: of_nat_less_iff)
  then have "uint x < 2 ^ 63"
    by (simp only: uint_nat of_nat_power of_nat_numeral)
  moreover have "- (2 ^ 63) \<le> uint x"
    by (rule order_trans [of _ 0]) simp_all
  ultimately have self: "signed_take_bit 63 (uint x) = uint x"
    by (rule signed_take_bit_int_eq_self [rotated])
  have len: "LENGTH(64) - Suc 0 = 63"
    by simp
  have "sint x = signed_take_bit 63 (uint x)"
    using sint_uint [of x] by (simp only: len)
  also note self
  also have "uint x = int (unat x)"
    by (rule uint_nat)
  finally show ?thesis .
qed

lemma unat_u8_less: "unat (w :: u8) < 256"
  using unsigned_less [of w, where 'a = nat] by simp

lemma unat_index: "unat (p div ucast w :: u64) = unat p div unat (w :: u8)"
  by (simp add: unat_div unat_ucast_u8_u64)

lemma unat_offset:
  "unat (p - (p div ucast w) * ucast w :: u64) = unat p mod unat (w :: u8)"
proof -
  have "p - (p div ucast w) * ucast w = p mod (ucast w :: u64)"
    by (metis add_diff_cancel_left' div_mult_mod_eq)
  then show ?thesis
    by (simp add: unat_mod unat_ucast_u8_u64)
qed

lemma bitlocation_snd:
  assumes "w \<noteq> 0"
  shows "unat (snd (bitlocation p w)) = unat p mod unat w"
proof -
  have "0 < unat w"
    using assms by (simp add: unat_gt_0)
  then have "unat p mod unat w < unat w"
    by simp
  then have "unat p mod unat w < 256"
    using unat_u8_less [of w] by linarith
  then have "unat (ucast (p - (p div ucast w) * ucast w :: u64) :: u8) = unat p mod unat w"
    by (simp add: unat_ucast_u64_u8 unat_offset)
  then show ?thesis
    using assms by (simp add: bitlocation_def Let_def)
qed

lemma bitlocation_fst:
  assumes "w \<noteq> 0" and "unat p div unat w < 2 ^ 63"
  shows "fst (bitlocation p w) = int (unat p div unat w)"
  using assms by (simp add: bitlocation_def Let_def sint_small unat_index)

lemma bitlocation_zero: "bitlocation p 0 = bitlocation p 8"
  by (simp add: bitlocation_def)

lemma div_small:
  assumes "2 \<le> unat (w :: u8)"
  shows "unat (p :: u64) div unat w < 2 ^ 63"
proof -
  have "unat p < 2 ^ 64"
    using unsigned_less [of p, where 'a = nat] by simp
  then have "unat p div unat w \<le> unat p div 2"
    using assms by (simp add: div_le_mono2)
  also have "\<dots> < 2 ^ 63"
    using \<open>unat p < 2 ^ 64\<close> by simp
  finally show ?thesis .
qed


section \<open>Bit addressing\<close>

text \<open>
  Claim C8, as stated, fails: \<^verbatim>\<open>bitlocation\<close> returns the index as an \<^verbatim>\<open>int\<close>, and the
  quotient of a position of \<open>2 ^ 63\<close> or more by a bucket size of 1 is not an \<^verbatim>\<open>int\<close>: the
  index returned is negative.
\<close>

theorem bitlocation_counterexample:
  "fst (bitlocation 9223372036854775808 1) = - 9223372036854775808
   \<and> fst (bitlocation 9223372036854775808 1) \<noteq> int (9223372036854775808 div 1)"
  by (simp add: bitlocation_def Let_def)

text \<open>
  Claim C8, amended: with the bucket size \<open>w'\<close> (8 when \<open>w\<close> is 0, else \<open>w\<close>), the offset is
  \<open>p - (p div w') * w'\<close> for every position and every size; the index is \<open>p div w'\<close>
  whenever that quotient is below \<open>2 ^ 63\<close>, which it is for every size but 1. In
  particular \<^verbatim>\<open>bitlocation(63, 64)\<close> is \<open>(0, 63)\<close> and \<^verbatim>\<open>bitlocation(64, 64)\<close> is \<open>(1, 0)\<close>.
\<close>

theorem bitlocation_amended:
  fixes p :: u64 and w :: u8
  shows "(let w' = (if w = 0 then 8 else w);
              index = unat p div unat w'
          in unat (snd (bitlocation p w)) = unat p - index * unat w'
             \<and> (index < 2 ^ 63 \<longrightarrow> fst (bitlocation p w) = int index)
             \<and> (w \<noteq> 1 \<longrightarrow> fst (bitlocation p w) = int index))
         \<and> bitlocation 63 64 = (0, 63) \<and> bitlocation 64 64 = (1, 0)"
proof -
  define w' where "w' = (if w = 0 then 8 else w)"
  have nz: "w' \<noteq> 0"
    by (simp add: w'_def)
  have same: "bitlocation p w = bitlocation p w'"
    by (simp add: w'_def bitlocation_zero)
  have "unat p mod unat w' = unat p - (unat p div unat w') * unat w'"
    by (simp add: minus_div_mult_eq_mod)
  then have off: "unat (snd (bitlocation p w)) = unat p - (unat p div unat w') * unat w'"
    using bitlocation_snd [OF nz, of p] same by simp
  have idx: "unat p div unat w' < 2 ^ 63 \<Longrightarrow> fst (bitlocation p w) = int (unat p div unat w')"
    using bitlocation_fst [OF nz, of p] same by simp
  have "w \<noteq> 1 \<Longrightarrow> 2 \<le> unat w'"
  proof -
    assume "w \<noteq> 1"
    then have "w' \<noteq> 1"
      by (simp add: w'_def)
    then have "unat w' \<noteq> 1"
      by (simp add: word_unat_eq_iff)
    moreover have "unat w' \<noteq> 0"
      using nz by (simp add: unat_0_iff)
    ultimately show ?thesis
      by linarith
  qed
  then have idx2: "w \<noteq> 1 \<Longrightarrow> fst (bitlocation p w) = int (unat p div unat w')"
    using idx div_small by blast
  have c1: "bitlocation 63 64 = (0, 63)" and c2: "bitlocation 64 64 = (1, 0)"
    by (simp_all add: bitlocation_def Let_def)
  show ?thesis
    using off idx idx2 c1 c2 unfolding Let_def w'_def by blast
qed


theorem bitlocation_amended_witness:
  "fst (bitlocation 200 64) = 3 \<and> snd (bitlocation 200 64) = 8
   \<and> fst (bitlocation 15 0) = 1 \<and> snd (bitlocation 15 0) = 7"
  using bitlocation_amended [of 64 200] bitlocation_amended [of 0 15]
  by (simp add: Let_def word_unat_eq_iff)

section \<open>Hashing\<close>

lemma sha256_length: "length (sha256 msg) = 32"
proof -
  obtain a r where
    "sha_blocks (length (sha_pad (map unat msg)) div 64) sha_init (sha_pad (map unat msg)) = (a, r)"
    by (rule prod.exhaust)
  moreover obtain b c d e f g h where "r = (b, c, d, e, f, g, h)"
    by (rule prod_cases7)
  ultimately have
    "sha_blocks (length (sha_pad (map unat msg)) div 64) sha_init (sha_pad (map unat msg))
      = (a, b, c, d, e, f, g, h)"
    by simp
  then show ?thesis
    by (simp add: sha256_def Let_def be_bytes32_def)
qed

lemma nibble_cases:
  assumes "d < (16 :: u8)"
  shows "d \<in> {0, 1, 2, 3, 4, 5, 6, 7, 8, 9, 10, 11, 12, 13, 14, 15}"
proof -
  have "unat d < 16"
    using assms by (simp add: word_less_nat_alt)
  then have "unat d \<in> {0, 1, 2, 3, 4, 5, 6, 7, 8, 9, 10, 11, 12, 13, 14, 15}"
    by simp arith
  then have "word_of_nat (unat d) \<in> (word_of_nat ` {0, 1, 2, 3, 4, 5, 6, 7, 8, 9, 10, 11, 12, 13, 14, 15} :: u8 set)"
    by (rule imageI)
  then show ?thesis
    by (simp only: of_nat_unat ucast_id) simp
qed

lemma digit_of_hexdigit: "d < 16 \<Longrightarrow> digit_of (hexdigit d) = Some d"
  using nibble_cases [of d] by (auto simp: digit_of_def hexdigit_def lower_def)

lemma hex_digit_value_hexdigit: "d < 16 \<Longrightarrow> hex_digit_value (hexdigit d) = unat d"
  using nibble_cases [of d] by (auto simp: hex_digit_value_def hexdigit_def)

lemma hi_nibble: "drop_bit 4 (b :: u8) < 16"
proof -
  have "unat b < 256"
    by (rule unat_u8_less)
  then have "unat b div 16 < 16"
    by simp
  then have "unat (drop_bit 4 b) < 16"
    by (simp add: unat_drop_bit_eq drop_bit_eq_div unat_div)
  then show ?thesis
    by (simp add: word_less_nat_alt)
qed

lemma lo_nibble: "(b :: u8) AND 0x0f < 16"
proof -
  have "b AND 0x0f \<le> 0x0f"
    by (rule word_and_le1)
  then show ?thesis
    by (simp add: word_le_nat_alt word_less_nat_alt)
qed

lemma hex_encode_nibbles: "hex_encode bs = map hexdigit (nibbles bs)"
  by (induction bs) (simp_all add: hex_encode_def nibbles_def)

lemma nibbles_less: "\<forall>d \<in> set (nibbles bs). d < 16"
  by (induction bs) (simp_all add: nibbles_def hi_nibble lo_nibble)

lemma length_nibbles: "length (nibbles bs) = 2 * length bs"
  by (induction bs) (simp_all add: nibbles_def)

lemma take_nibbles: "take (2 * k) (nibbles bs) = nibbles (take k bs)"
proof (induction bs arbitrary: k)
  case Nil
  then show ?case by (simp add: nibbles_def)
next
  case (Cons b bs)
  show ?case
  proof (cases k)
    case 0
    then show ?thesis by (simp add: nibbles_def)
  next
    case (Suc k')
    have "nibbles (b # bs) = drop_bit 4 b # (b AND 0x0f) # nibbles bs"
      by (simp add: nibbles_def)
    moreover have "nibbles (b # take k' bs) = drop_bit 4 b # (b AND 0x0f) # nibbles (take k' bs)"
      by (simp add: nibbles_def)
    ultimately show ?thesis
      using Cons.IH [of k'] Suc by simp
  qed
qed

lemma hex_value_nibbles_aux:
  "\<forall>d \<in> set ds. d < 16 \<Longrightarrow>
   foldl (\<lambda>a c. 16 * a + hex_digit_value c) a0 (map hexdigit ds)
     = foldl (\<lambda>a d. 16 * a + unat d) a0 ds"
  by (induction ds arbitrary: a0) (simp_all add: hex_digit_value_hexdigit)

lemma power16_step:
  assumes "a < (16 :: nat) ^ j" and "d < 16"
  shows "16 * a + d < 16 ^ Suc j"
proof -
  have "16 * a + d < 16 * a + 16"
    using assms(2) by simp
  also have "\<dots> = 16 * Suc a"
    by simp
  also have "\<dots> \<le> 16 * 16 ^ j"
    using assms(1) by (simp only: mult_le_cancel1 Suc_le_eq) simp
  finally show ?thesis
    by simp
qed

lemma parse_step:
  fixes acc :: u64 and d :: u8
  assumes "unat acc < 16 ^ j" and "j < 16" and "d < 16"
  shows "\<not> 0x1000000000000000 \<le> acc"
    and "unat (acc * 16 + ucast d) = 16 * unat acc + unat d"
    and "\<not> acc * 16 + ucast d < acc * 16"
proof -
  have dn: "unat d < 16"
    using assms(3) by (simp add: word_less_nat_alt)
  have "(16 :: nat) ^ j \<le> 16 ^ 15"
    using assms(2) by (intro power_increasing) simp_all
  then have a: "unat acc < 1152921504606846976"
    using assms(1) by simp
  then show "\<not> 0x1000000000000000 \<le> acc"
    by (simp add: word_le_nat_alt)
  have m: "unat (acc * 16) = unat acc * 16"
  proof -
    have "unat acc * unat (16 :: u64) < 2 ^ LENGTH(64)"
      using a by simp
    then have "unat (acc * 16) = unat acc * unat (16 :: u64)"
      by (simp only: unat_mult_lem)
    then show ?thesis
      by simp
  qed
  have ud: "unat (ucast d :: u64) = unat d"
    by (rule unat_ucast_u8_u64)
  have "unat (acc * 16) + unat (ucast d :: u64) < 2 ^ LENGTH(64)"
    using a dn by (simp add: m ud)
  then have s: "unat (acc * 16 + ucast d) = unat (acc * 16) + unat (ucast d :: u64)"
    by (simp only: unat_add_lem)
  then show "unat (acc * 16 + ucast d) = 16 * unat acc + unat d"
    by (simp add: m ud)
  show "\<not> acc * 16 + ucast d < acc * 16"
    using s by (simp add: word_less_nat_alt)
qed

lemma parse_loop_nibbles:
  assumes "\<forall>d \<in> set ds. d < 16" and "unat acc < 16 ^ j" and "j + length ds \<le> 16"
  shows "parse_loop acc (map hexdigit ds)
           = (word_of_nat (foldl (\<lambda>a d. 16 * a + unat d) (unat acc) ds), None)
         \<and> foldl (\<lambda>a d. 16 * a + unat d) (unat acc) ds < 16 ^ (j + length ds)"
  using assms
proof (induction ds arbitrary: acc j)
  case Nil
  then show ?case by simp
next
  case (Cons d ds)
  have d: "d < 16" and j: "j < 16"
    using Cons.prems by simp_all
  note st = parse_step [OF Cons.prems(2) j d]
  have "unat (acc * 16 + ucast d) < 16 ^ Suc j"
    using power16_step [OF Cons.prems(2), of "unat d"] d
    by (simp add: st(2) word_less_nat_alt)
  moreover have "\<forall>d \<in> set ds. d < 16" and "Suc j + length ds \<le> 16"
    using Cons.prems by simp_all
  ultimately have ih:
    "parse_loop (acc * 16 + ucast d) (map hexdigit ds)
       = (word_of_nat (foldl (\<lambda>a d. 16 * a + unat d) (unat (acc * 16 + ucast d)) ds), None)
     \<and> foldl (\<lambda>a d. 16 * a + unat d) (unat (acc * 16 + ucast d)) ds < 16 ^ (Suc j + length ds)"
    by (intro Cons.IH)
  have "\<not> 16 \<le> d"
    using d by simp
  then have "parse_loop acc (map hexdigit (d # ds)) = parse_loop (acc * 16 + ucast d) (map hexdigit ds)"
    using st(1,3) by (simp add: digit_of_hexdigit [OF d] Let_def)
  then show ?case
    using ih by (simp add: st(2))
qed

lemma ParseUint_hex:
  assumes "8 \<le> length bs"
  shows "ParseUint (take 16 (hex_encode bs))
           = (word_of_nat (hex_value (take 16 (hex_encode bs))), None)
         \<and> hex_value (take 16 (hex_encode bs)) < 2 ^ 64"
proof -
  let ?ds = "nibbles (take 8 bs)"
  have t: "take 16 (hex_encode bs) = map hexdigit ?ds"
    using take_nibbles [of 8 bs] by (simp add: hex_encode_nibbles take_map)
  have len: "length ?ds = 16"
    using assms by (simp add: length_nibbles)
  have all: "\<forall>d \<in> set ?ds. d < 16"
    by (rule nibbles_less)
  have hv: "hex_value (map hexdigit ?ds) = foldl (\<lambda>a d. 16 * a + unat d) 0 ?ds"
    unfolding hex_value_def by (rule hex_value_nibbles_aux [OF all])
  have "unat (0 :: u64) < 16 ^ 0" and "0 + length ?ds \<le> 16"
    using len by simp_all
  from parse_loop_nibbles [OF all this]
  have p: "parse_loop 0 (map hexdigit ?ds) = (word_of_nat (hex_value (map hexdigit ?ds)), None)"
    and b: "hex_value (map hexdigit ?ds) < 16 ^ 16"
    by (simp_all add: hv len)
  have ne: "map hexdigit ?ds \<noteq> []"
    using len by auto
  have "(16 :: nat) ^ 16 = 2 ^ 64"
    by simp
  then show ?thesis
    using p b ne by (simp add: t ParseUint_def)
qed

lemma hash_value:
  "hash b m =
     (if m = 0 then Inl DivideByZero
      else Inr (word_of_nat (hex_value (take 16 (hex_encode (sha256 b))) mod unat m), None))"
proof -
  let ?v = "hex_value (take 16 (hex_encode (sha256 b)))"
  have "8 \<le> length (sha256 b)"
    by (simp add: sha256_length)
  from ParseUint_hex [OF this]
  have p: "ParseUint (take 16 (hex_encode (sha256 b))) = (word_of_nat ?v, None)"
    and v: "?v < 2 ^ 64"
    by simp_all
  have long: "\<not> length (hex_encode (sha256 b)) < 16"
    by (simp add: hex_encode_nibbles length_nibbles sha256_length)
  have "unat (word_of_nat ?v :: u64) = ?v"
    using v by (simp add: unat_of_nat)
  then have "(word_of_nat ?v :: u64) mod m = word_of_nat (?v mod unat m)"
    by (simp add: word_arith_nat_mod)
  then show ?thesis
    using p long by (simp add: hash_def Let_def)
qed

lemma bitpositions_loop_value:
  assumes "m \<noteq> 0" and "unat i \<le> unat hqty" and "length pos = unat hqty"
  shows "bitpositions_loop (length element) hqty m i (element @ [x]) pos
           = Inr (take (unat i) pos
                  @ map (\<lambda>j. word_of_nat (position_spec element j (unat m))) [unat i..<unat hqty],
                  None)"
  using assms(2,3)
proof (induction "unat hqty - unat i" arbitrary: i x pos)
  case 0
  then have "unat i = unat hqty"
    by simp
  then have "\<not> i < hqty"
    by (simp add: word_less_nat_alt)
  then show ?case
    using 0 \<open>unat i = unat hqty\<close> by (simp add: bitpositions_loop.simps)
next
  case (Suc n)
  then have lt: "unat i < unat hqty"
    by simp
  then have ilt: "i < hqty"
    by (simp add: word_less_nat_alt)
  have "unat hqty < 256"
    by (rule unat_u8_less)
  with lt have nxt: "unat (i + 1) = Suc (unat i)"
    by (simp add: unat_word_ariths)
  let ?v = "word_of_nat (position_spec element (unat i) (unat m)) :: u64"
  have upd: "(element @ [x])[length element := i] = element @ [i]"
    by simp
  have h: "hash (element @ [i]) m = Inr (?v, None)"
    using assms(1) by (simp add: hash_value position_spec_def)
  have step: "bitpositions_loop (length element) hqty m i (element @ [x]) pos
      = bitpositions_loop (length element) hqty m (i + 1) (element @ [i]) (pos[unat i := ?v])"
    using ilt by (subst bitpositions_loop.simps) (simp add: upd h Let_def)
  have "n = unat hqty - unat (i + 1)" and "unat (i + 1) \<le> unat hqty"
    and "length (pos[unat i := ?v]) = unat hqty"
    using Suc.hyps(2) Suc.prems lt by (simp_all add: nxt)
  from Suc.hyps(1) [OF this]
  have "bitpositions_loop (length element) hqty m (i + 1) (element @ [i]) (pos[unat i := ?v])
      = Inr (take (Suc (unat i)) (pos[unat i := ?v])
             @ map (\<lambda>j. word_of_nat (position_spec element j (unat m))) [Suc (unat i)..<unat hqty],
             None)"
    by (simp add: nxt)
  moreover have "take (Suc (unat i)) (pos[unat i := ?v]) = take (unat i) pos @ [?v]"
    using lt Suc.prems(2) by (simp add: take_Suc_conv_app_nth)
  moreover have "[unat i..<unat hqty] = unat i # [Suc (unat i)..<unat hqty]"
    using lt by (simp add: upt_conv_Cons)
  ultimately show ?case
    by (simp add: step)
qed

lemma bitpositions_value:
  assumes "m \<noteq> 0"
  shows "bitpositions element k m
           = Inr (map (\<lambda>j. word_of_nat (position_spec element j (unat m))) [0..<unat k], None)"
  using bitpositions_loop_value [OF assms, of 0 k "replicate (unat k) 0" element 0]
  by (simp add: bitpositions_def)

lemma position_less:
  assumes "m \<noteq> 0"
  shows "(word_of_nat (position_spec element j (unat m)) :: u64) < m"
proof -
  have pos: "0 < unat m"
    using assms by (simp add: unat_gt_0)
  then have lt: "position_spec element j (unat m) < unat m"
    by (simp add: position_spec_def)
  moreover have "unat m < 2 ^ 64"
    using unsigned_less [of m, where 'a = nat] by simp
  ultimately have "unat (word_of_nat (position_spec element j (unat m)) :: u64)
      = position_spec element j (unat m)"
    by (simp add: unat_of_nat)
  with lt show ?thesis
    by (simp add: word_less_nat_alt)
qed

lemma bitpositions_zero_bitlen:
  "bitpositions element k 0 = (if k = 0 then Inr ([], None) else Inl DivideByZero)"
proof (cases "k = 0")
  case True
  then show ?thesis
    by (simp add: bitpositions_def bitpositions_loop.simps)
next
  case False
  then have "0 < k"
    by (simp add: word_gt_0)
  then show ?thesis
    by (simp add: bitpositions_def bitpositions_loop.simps [of _ k 0 0] hash_value Let_def)
qed


lemma bitpositions_Inr:
  assumes "bitpositions element k m = Inr (pos, r)"
  shows "length pos = unat k \<and> r = None"
proof (cases "m = 0")
  case True
  with assms show ?thesis
    by (auto simp: bitpositions_zero_bitlen split: if_splits)
next
  case False
  from assms show ?thesis
    by (auto simp: bitpositions_value [OF False])
qed

subsection \<open>Digests of the test element\<close>

text \<open>
  The element of the package's tests is the string \<^verbatim>\<open>test\<close>, the bytes 0x74, 0x65, 0x73,
  0x74. The digests of the element followed by the index bytes 0 to 3 are computed by
  rewriting with the definitions.
\<close>

lemma replicate_numeral: "replicate (numeral k) x = x # replicate (pred_numeral k) x"
  by (simp add: numeral_eq_Suc)

lemma sha_blocks_numeral:
  "sha_blocks (numeral k) st bs
     = sha_blocks (pred_numeral k) (sha_block st (take 64 bs)) (drop 64 bs)"
  by (simp add: numeral_eq_Suc)

lemma list_update_numeral: "(x # xs)[numeral k := v] = x # xs[pred_numeral k := v]"
  by (simp add: numeral_eq_Suc)

lemmas sha_eval = sha_init_def rotr_def bsig0_def bsig1_def ssig0_def ssig1_def maj_def ch_def
  Let_def add32_def sha_pad_def replicate_numeral sha_blocks_numeral be_bytes32_def
  be_bytes64_def next_w_def sha_block_def sha256_def K256_def

lemma sha256_test_0:
  "sha256 [0x74, 0x65, 0x73, 0x74, 0] =
     [206, 183, 55, 73, 200, 153, 105, 55, 6, 237, 225, 227, 12, 153, 41, 179,
      253, 93, 217, 38, 22, 56, 49, 194, 251, 139, 212, 30, 110, 251, 17, 38]"
  by (simp add: sha_eval)

lemma sha256_test_1:
  "sha256 [0x74, 0x65, 0x73, 0x74, 1] =
     [252, 9, 69, 104, 179, 9, 93, 164, 143, 186, 142, 52, 205, 210, 215, 199,
      123, 229, 74, 47, 56, 50, 200, 134, 73, 16, 255, 169, 95, 215, 234, 102]"
  by (simp add: sha_eval)

lemma sha256_test_2:
  "sha256 [0x74, 0x65, 0x73, 0x74, 2] =
     [191, 43, 233, 75, 143, 107, 168, 176, 165, 10, 195, 155, 61, 132, 65, 121,
      128, 58, 26, 209, 47, 216, 36, 194, 190, 189, 107, 43, 188, 198, 119, 218]"
  by (simp add: sha_eval)

lemma sha256_test_3:
  "sha256 [0x74, 0x65, 0x73, 0x74, 3] =
     [181, 237, 107, 2, 31, 161, 65, 117, 60, 254, 189, 19, 68, 165, 77, 17,
      234, 27, 241, 203, 120, 228, 195, 238, 55, 232, 198, 90, 194, 46, 3, 38]"
  by (simp add: sha_eval)

lemma digit_one: "\<not> 16 \<le> (1 :: u8)"
  by (simp add: word_le_nat_alt)

lemmas hash_eval = hash_def hex_encode_def hexdigit_def ParseUint_def digit_of_def lower_def Let_def
  digit_one

lemma hash_test_0: "hash [0x74, 0x65, 0x73, 0x74, 0] 48 = Inr (7, None)"
  by (simp add: hash_eval sha256_test_0)

lemma hash_test_1: "hash [0x74, 0x65, 0x73, 0x74, 1] 48 = Inr (36, None)"
  by (simp add: hash_eval sha256_test_1)

lemma hash_test_2: "hash [0x74, 0x65, 0x73, 0x74, 2] 48 = Inr (32, None)"
  by (simp add: hash_eval sha256_test_2)

lemma hash_test_3: "hash [0x74, 0x65, 0x73, 0x74, 3] 48 = Inr (37, None)"
  by (simp add: hash_eval sha256_test_3)

lemma bitpositions_test:
  "bitpositions [0x74, 0x65, 0x73, 0x74] 4 48 = Inr ([7, 36, 32, 37], None)"
  by (simp add: bitpositions_def bitpositions_loop.simps replicate_numeral list_update_numeral
      hash_test_0 hash_test_1 hash_test_2 hash_test_3)


text \<open>
  Claim C3: for every element, every \<open>k\<close> and every bit length \<open>m\<close> other than 0,
  \<^verbatim>\<open>bitpositions\<close> returns exactly \<open>k\<close> positions and no error; the position of index \<open>i\<close>
  is the value of the first 16 hexadecimal characters of the SHA-256 digest of the element
  followed by the byte \<open>i\<close>, modulo \<open>m\<close>, and so is below \<open>m\<close>. For the element
  \<^verbatim>\<open>test\<close>, \<open>k = 4\<close> and \<open>m = 48\<close> the positions are 7, 36, 32 and 37.
\<close>

theorem bitpositions_scheme:
  "(m \<noteq> 0 \<longrightarrow>
      (\<exists>pos. bitpositions element k m = Inr (pos, None) \<and> length pos = unat k
         \<and> (\<forall>i < unat k. pos ! i = word_of_nat (position_spec element i (unat m))
               \<and> pos ! i < m)))
   \<and> bitpositions [0x74, 0x65, 0x73, 0x74] 4 48 = Inr ([7, 36, 32, 37], None)"
proof (intro conjI impI)
  assume m: "m \<noteq> 0"
  let ?pos = "map (\<lambda>j. word_of_nat (position_spec element j (unat m)) :: u64) [0..<unat k]"
  have "bitpositions element k m = Inr (?pos, None)"
    by (rule bitpositions_value [OF m])
  moreover have "length ?pos = unat k"
    by simp
  moreover have "\<forall>i < unat k. ?pos ! i = word_of_nat (position_spec element i (unat m))
      \<and> ?pos ! i < m"
    using position_less [OF m, of element] by simp
  ultimately show "\<exists>pos. bitpositions element k m = Inr (pos, None) \<and> length pos = unat k
      \<and> (\<forall>i < unat k. pos ! i = word_of_nat (position_spec element i (unat m)) \<and> pos ! i < m)"
    by blast
next
  show "bitpositions [0x74, 0x65, 0x73, 0x74] 4 48 = Inr ([7, 36, 32, 37], None)"
    by (rule bitpositions_test)
qed

theorem bitpositions_scheme_witness:
  "bitpositions [0x74, 0x65, 0x73, 0x74] 4 48 = Inr ([7, 36, 32, 37], None)
   \<and> (word_of_nat (position_spec [0x74, 0x65, 0x73, 0x74] 2 48) :: u64) = 32
   \<and> (32 :: u64) < 48"
proof -
  have "(48 :: u64) \<noteq> 0"
    by simp
  with bitpositions_scheme [of 48 "[0x74, 0x65, 0x73, 0x74]" 4]
  obtain pos where p: "bitpositions [0x74, 0x65, 0x73, 0x74] 4 48 = Inr (pos, None)"
    and v: "\<forall>i < unat (4 :: u8).
      pos ! i = word_of_nat (position_spec [0x74, 0x65, 0x73, 0x74] i (unat (48 :: u64)))
      \<and> pos ! i < 48"
    by blast
  from p have pos: "pos = [7, 36, 32, 37]"
    by (simp add: bitpositions_test)
  have "(2 :: nat) < unat (4 :: u8)"
    by simp
  with v have "pos ! 2 = word_of_nat (position_spec [0x74, 0x65, 0x73, 0x74] 2 (unat (48 :: u64)))
      \<and> pos ! 2 < 48"
    by blast
  then show ?thesis
    using p by (simp add: pos)
qed

section \<open>Adding and querying\<close>

lemma mask_test: "((x :: u64) AND 2 ^ k = 0) = (\<not> bit x k)"
  using bit_iff_and_push_bit_not_eq_0 [of x k] by simp

lemma mask_mono: "bit (x :: u64) j \<Longrightarrow> bit (x OR 2 ^ k) j"
  by (simp add: bit_or_iff)

lemma mask_set: "k < 64 \<Longrightarrow> bit ((x :: u64) OR 2 ^ k) k"
  by (simp add: bit_or_iff bit_exp_iff)

lemma mask_idem: "bit (x :: u64) k \<Longrightarrow> x OR 2 ^ k = x"
  by (rule bit_eqI) (auto simp: bit_or_iff bit_exp_iff)

lemma bitlocation_64: "bitlocation p 64 = (int (unat p div 64), word_of_nat (unat p mod 64))"
proof -
  have "unat (64 :: u8) = 64"
    by simp
  then have d: "unat p div unat (64 :: u8) < 2 ^ 63"
    using div_small [of 64 p] by simp
  have "fst (bitlocation p 64) = int (unat p div 64)"
    using bitlocation_fst [of 64 p] d by simp
  moreover have "unat (snd (bitlocation p 64)) = unat p mod 64"
    using bitlocation_snd [of 64 p] by simp
  then have "word_of_nat (unat (snd (bitlocation p 64))) = (word_of_nat (unat p mod 64) :: u8)"
    by simp
  then have "snd (bitlocation p 64) = word_of_nat (unat p mod 64)"
    by (simp only: of_nat_unat ucast_id)
  ultimately show ?thesis
    by (simp add: prod_eq_iff)
qed

lemma unat_offset_64: "unat (word_of_nat (unat (p :: u64) mod 64) :: u8) = unat p mod 64"
  using bitlocation_snd [of 64 p] by (simp add: bitlocation_64)

lemma add_loop_Cons:
  "add_loop (p # ps) store =
     (if unat p div 64 < length store
      then add_loop ps (store[unat p div 64 :=
             (store ! (unat p div 64)) OR 2 ^ (unat p mod 64)])
      else Inl IndexOutOfRange)"
  by (simp add: bitlocation_64 unat_offset_64 Let_def)

lemma has_loop_Cons:
  "has_loop (p # ps) store =
     (if unat p div 64 < length store
      then (if bit (store ! (unat p div 64)) (unat p mod 64) then has_loop ps store
            else Inr (store, False))
      else Inl IndexOutOfRange)"
  by (simp add: bitlocation_64 unat_offset_64 Let_def mask_test)

lemma bit_at_iff:
  "bit_at store p =
     (unat p div 64 < length store \<and> bit (store ! (unat p div 64)) (unat p mod 64))"
  by (simp add: bit_at_def bitlocation_64 unat_offset_64)

declare add_loop.simps(2) [simp del] has_loop.simps(2) [simp del]

lemma add_loop_length: "add_loop ps store = Inr store' \<Longrightarrow> length store' = length store"
proof (induction ps arbitrary: store)
  case Nil
  then show ?case by simp
next
  case (Cons p ps)
  then show ?case
    by (auto simp: add_loop_Cons split: if_splits dest: Cons.IH)
qed

lemma add_loop_mono:
  "add_loop ps store = Inr store' \<Longrightarrow> i < length store \<Longrightarrow> bit (store ! i) j
    \<Longrightarrow> bit (store' ! i) j"
proof (induction ps arbitrary: store)
  case Nil
  then show ?case by simp
next
  case (Cons p ps)
  let ?k = "unat p div 64"
  let ?s = "store[?k := (store ! ?k) OR 2 ^ (unat p mod 64)]"
  from Cons.prems(1) have inr: "?k < length store" and rest: "add_loop ps ?s = Inr store'"
    by (auto simp: add_loop_Cons split: if_splits)
  have "bit (?s ! i) j"
    using Cons.prems(2,3) by (cases "i = ?k") (simp_all add: mask_mono)
  with Cons.IH [OF rest] Cons.prems(2) show ?case
    by simp
qed

lemma add_loop_sets:
  "add_loop ps store = Inr store' \<Longrightarrow> p \<in> set ps \<Longrightarrow> bit_at store' p"
proof (induction ps arbitrary: store)
  case Nil
  then show ?case by simp
next
  case (Cons q qs)
  let ?k = "unat q div 64"
  let ?s = "store[?k := (store ! ?k) OR 2 ^ (unat q mod 64)]"
  from Cons.prems(1) have inr: "?k < length store" and rest: "add_loop qs ?s = Inr store'"
    by (auto simp: add_loop_Cons split: if_splits)
  show ?case
  proof (cases "p = q")
    case True
    have "bit (?s ! ?k) (unat q mod 64)"
      using inr by (simp add: mask_set)
    then have "bit (store' ! ?k) (unat q mod 64)"
      using add_loop_mono [OF rest, of ?k] inr by simp
    moreover have "?k < length store'"
      using add_loop_length [OF rest] inr by simp
    ultimately show ?thesis
      using True by (simp add: bit_at_iff)
  next
    case False
    with Cons.prems(2) have "p \<in> set qs"
      by simp
    then show ?thesis
      by (rule Cons.IH [OF rest])
  qed
qed

lemma has_loop_all: "\<forall>p \<in> set ps. bit_at store p \<Longrightarrow> has_loop ps store = Inr (store, True)"
  by (induction ps) (simp_all add: has_loop_Cons bit_at_iff)

lemma add_loop_idem: "\<forall>p \<in> set ps. bit_at store p \<Longrightarrow> add_loop ps store = Inr store"
  by (induction ps) (simp_all add: add_loop_Cons bit_at_iff mask_idem)

lemma has_loop_store: "has_loop ps store = Inr (store', b) \<Longrightarrow> store' = store"
  by (induction ps) (auto simp: has_loop_Cons split: if_splits)

lemma has_loop_True: "has_loop ps store = Inr (store', True) \<Longrightarrow> \<forall>p \<in> set ps. bit_at store p"
  by (induction ps) (auto simp: has_loop_Cons bit_at_iff split: if_splits)

lemma has_loop_first_zero:
  assumes "\<forall>q \<in> set pre. bit_at store q"
    and "unat p div 64 < length store" and "\<not> bit_at store p"
  shows "has_loop (pre @ p # post) store = Inr (store, False)"
  using assms by (induction pre) (simp_all add: has_loop_Cons bit_at_iff)

lemma has_loop_False:
  "has_loop ps store = Inr (store', False) \<Longrightarrow> \<exists>p \<in> set ps. \<not> bit_at store p"
  by (induction ps) (auto simp: has_loop_Cons bit_at_iff split: if_splits)

lemma Add_cases:
  assumes "Add bf e = Inr (bf', r)"
  obtains (err) pos x where "bitpositions e (hashqty bf) (bitlen bf) = Inr (pos, Some x)"
      and "bf' = bf" and "r = Some x"
  | (ok) pos store where "bitpositions e (hashqty bf) (bitlen bf) = Inr (pos, None)"
      and "add_loop pos (bitstore bf) = Inr store" and "bf' = bf\<lparr>bitstore := store\<rparr>"
      and "r = None"
  using assms by (auto simp: Add_def split: sum.splits prod.splits option.splits)

lemma Has_cases:
  assumes "Has bf e = Inr (bf', b, r)"
  obtains (err) pos x where "bitpositions e (hashqty bf) (bitlen bf) = Inr (pos, Some x)"
      and "bf' = bf" and "b = False" and "r = Some x"
  | (ok) pos where "bitpositions e (hashqty bf) (bitlen bf) = Inr (pos, None)"
      and "has_loop pos (bitstore bf) = Inr (bitstore bf, b)" and "bf' = bf" and "r = None"
proof -
  have "bf\<lparr>bitstore := bitstore bf\<rparr> = bf"
    by simp
  with assms that show ?thesis
    by (auto simp: Has_def split: sum.splits prod.splits option.splits dest!: has_loop_store)
qed

lemma Has_ok:
  assumes "bitpositions e (hashqty bf) (bitlen bf) = Inr (pos, None)"
    and "has_loop pos (bitstore bf) = Inr (bitstore bf, b)"
  shows "Has bf e = Inr (bf, b, None)"
  using assms by (simp add: Has_def)

lemma Add_ok:
  assumes "bitpositions e (hashqty bf) (bitlen bf) = Inr (pos, None)"
    and "add_loop pos (bitstore bf) = Inr store"
  shows "Add bf e = Inr (bf\<lparr>bitstore := store\<rparr>, None)"
  using assms by (simp add: Add_def)


subsection \<open>The filter of the package's tests\<close>

text \<open>
  The tests of \<^verbatim>\<open>Add\<close> and \<^verbatim>\<open>Has\<close> use a filter of 4 hash functions and 48 bits in one
  bucket. Adding the element \<^verbatim>\<open>test\<close> to the empty store gives the store 210453397632,
  the bits 7, 32, 36 and 37; the store 206158430336 lacks bit 32.
\<close>

lemma Add_test:
  "Add \<lparr>prob = 0, bitlen = 48, hashqty = 4, nelems = 0, bitstore = [0]\<rparr> [0x74, 0x65, 0x73, 0x74]
     = Inr (\<lparr>prob = 0, bitlen = 48, hashqty = 4, nelems = 0, bitstore = [210453397632]\<rparr>, None)"
  by (simp add: Add_def bitpositions_test add_loop_Cons)

lemma Add_test_again:
  "Add \<lparr>prob = 0, bitlen = 48, hashqty = 4, nelems = 0, bitstore = [210453397632]\<rparr>
         [0x74, 0x65, 0x73, 0x74]
     = Inr (\<lparr>prob = 0, bitlen = 48, hashqty = 4, nelems = 0, bitstore = [210453397632]\<rparr>, None)"
  by (simp add: Add_def bitpositions_test add_loop.simps bitlocation_def Let_def)

lemma Has_test:
  "Has \<lparr>prob = 0, bitlen = 48, hashqty = 4, nelems = 0, bitstore = [210453397632]\<rparr>
         [0x74, 0x65, 0x73, 0x74]
     = Inr (\<lparr>prob = 0, bitlen = 48, hashqty = 4, nelems = 0, bitstore = [210453397632]\<rparr>,
            True, None)"
  by (simp add: Has_def bitpositions_test has_loop.simps bitlocation_def Let_def)

lemma Has_test_missing:
  "Has \<lparr>prob = 0, bitlen = 48, hashqty = 4, nelems = 0, bitstore = [206158430336]\<rparr>
         [0x74, 0x65, 0x73, 0x74]
     = Inr (\<lparr>prob = 0, bitlen = 48, hashqty = 4, nelems = 0, bitstore = [206158430336]\<rparr>,
            False, None)"
  by (simp add: Has_def bitpositions_test has_loop.simps bitlocation_def Let_def)

lemma bit_at_test:
  "bit_at [210453397632] 7" "bit_at [210453397632] 36" "bit_at [210453397632] 32"
  "bit_at [210453397632] 37"
  "bit_at [206158430336] 7" "bit_at [206158430336] 36" "\<not> bit_at [206158430336] 32"
  by (simp_all add: bit_at_def bitlocation_def Let_def bit_iff_and_push_bit_not_eq_0)


text \<open>
  Claim C1: for every filter (one that \<^verbatim>\<open>New\<close> built or any other) and every element,
  if \<^verbatim>\<open>Add\<close> returns without an error, then \<^verbatim>\<open>Has\<close> on the filter it left returns
  \<^verbatim>\<open>true\<close> and no error.
\<close>

theorem Add_then_Has:
  assumes "Add bf e = Inr (bf', None)"
  shows "Has bf' e = Inr (bf', True, None)"
  using assms
proof (cases rule: Add_cases)
  case (ok pos store)
  have "\<forall>p \<in> set pos. bit_at store p"
    using add_loop_sets [OF ok(2)] by blast
  then have "has_loop pos (bitstore bf') = Inr (bitstore bf', True)"
    using ok(3) by (simp add: has_loop_all)
  moreover have "bitpositions e (hashqty bf') (bitlen bf') = Inr (pos, None)"
    using ok(1,3) by simp
  ultimately show ?thesis
    by (rule Has_ok [rotated])
qed simp


theorem Add_then_Has_witness:
  "Add \<lparr>prob = 0, bitlen = 48, hashqty = 4, nelems = 0, bitstore = [0]\<rparr> [0x74, 0x65, 0x73, 0x74]
     = Inr (\<lparr>prob = 0, bitlen = 48, hashqty = 4, nelems = 0, bitstore = [210453397632]\<rparr>, None)
   \<and> Has \<lparr>prob = 0, bitlen = 48, hashqty = 4, nelems = 0, bitstore = [210453397632]\<rparr>
         [0x74, 0x65, 0x73, 0x74]
     = Inr (\<lparr>prob = 0, bitlen = 48, hashqty = 4, nelems = 0, bitstore = [210453397632]\<rparr>,
            True, None)"
  using Add_then_Has [OF Add_test] Add_test by simp

text \<open>
  Claim C4: a second \<^verbatim>\<open>Add\<close> of the same element returns what the first returned and
  leaves the filter, its bit store included, as the first left it.
\<close>

theorem Add_idempotent:
  assumes "Add bf e = Inr (bf', r)"
  shows "Add bf' e = Inr (bf', r)"
  using assms
proof (cases rule: Add_cases)
  case (err pos x)
  with assms show ?thesis by simp
next
  case (ok pos store)
  have "\<forall>p \<in> set pos. bit_at store p"
    using add_loop_sets [OF ok(2)] by blast
  then have "add_loop pos (bitstore bf') = Inr (bitstore bf')"
    using ok(3) by (simp add: add_loop_idem)
  moreover have "bitpositions e (hashqty bf') (bitlen bf') = Inr (pos, None)"
    using ok(1,3) by simp
  ultimately have "Add bf' e = Inr (bf'\<lparr>bitstore := bitstore bf'\<rparr>, None)"
    by (rule Add_ok [rotated])
  then show ?thesis
    using ok(4) by simp
qed

theorem Add_idempotent_witness:
  "Add \<lparr>prob = 0, bitlen = 48, hashqty = 4, nelems = 0, bitstore = [0]\<rparr> [0x74, 0x65, 0x73, 0x74]
     = Inr (\<lparr>prob = 0, bitlen = 48, hashqty = 4, nelems = 0, bitstore = [210453397632]\<rparr>, None)
   \<and> Add \<lparr>prob = 0, bitlen = 48, hashqty = 4, nelems = 0, bitstore = [210453397632]\<rparr>
         [0x74, 0x65, 0x73, 0x74]
     = Inr (\<lparr>prob = 0, bitlen = 48, hashqty = 4, nelems = 0, bitstore = [210453397632]\<rparr>, None)"
  using Add_idempotent [OF Add_test] Add_test by simp

lemma Add_ones:
  assumes "Add bf e = Inr (bf', r)"
  shows "length (bitstore bf') = length (bitstore bf) \<and> ones (bitstore bf) \<subseteq> ones (bitstore bf')"
  using assms
proof (cases rule: Add_cases)
  case (err pos x)
  then show ?thesis by simp
next
  case (ok pos store)
  have "length store = length (bitstore bf)"
    by (rule add_loop_length [OF ok(2)])
  moreover have "ones (bitstore bf) \<subseteq> ones store"
    using add_loop_mono [OF ok(2)] \<open>length store = length (bitstore bf)\<close>
    by (auto simp: ones_def)
  ultimately show ?thesis
    using ok(3) by simp
qed

lemma add_all_ones:
  "add_all bf es = Inr bf' \<Longrightarrow> ones (bitstore bf) \<subseteq> ones (bitstore bf')"
proof (induction es arbitrary: bf)
  case Nil
  then show ?case by simp
next
  case (Cons e es)
  then obtain bf1 r where a: "Add bf e = Inr (bf1, r)" and rest: "add_all bf1 es = Inr bf'"
    by (auto split: sum.splits)
  from Add_ones [OF a] Cons.IH [OF rest] show ?case
    by blast
qed

lemma add_all_append:
  "add_all bf (es @ es') = Inr bf2 \<Longrightarrow> \<exists>bf1. add_all bf es = Inr bf1 \<and> add_all bf1 es' = Inr bf2"
  by (induction es arbitrary: bf) (auto split: sum.splits)


text \<open>
  Claim C5: \<^verbatim>\<open>Add\<close> keeps the length of the bit store and every bit that is 1; after a
  sequence of adds the bits that are 1 include those that were 1 after any prefix of the
  sequence; \<^verbatim>\<open>Has\<close> returns the filter as it was given.
\<close>

theorem bits_monotone:
  "(Add bf e = Inr (bf', r) \<longrightarrow>
      length (bitstore bf') = length (bitstore bf) \<and> ones (bitstore bf) \<subseteq> ones (bitstore bf'))
   \<and> (add_all bf (es @ es') = Inr bf2 \<longrightarrow>
      (\<exists>bf1. add_all bf es = Inr bf1 \<and> ones (bitstore bf1) \<subseteq> ones (bitstore bf2)))
   \<and> (Has bf e = Inr (bf', b, r) \<longrightarrow> bf' = bf)"
proof (intro conjI impI)
  assume "add_all bf (es @ es') = Inr bf2"
  then obtain bf1 where "add_all bf es = Inr bf1" and "add_all bf1 es' = Inr bf2"
    using add_all_append by blast
  then show "\<exists>bf1. add_all bf es = Inr bf1 \<and> ones (bitstore bf1) \<subseteq> ones (bitstore bf2)"
    using add_all_ones by blast
next
  assume "Has bf e = Inr (bf', b, r)"
  then show "bf' = bf"
    by (cases rule: Has_cases) simp_all
qed (simp_all add: Add_ones)


theorem bits_monotone_witness:
  "ones [0] \<subseteq> ones [210453397632]
   \<and> (\<exists>bf1. add_all \<lparr>prob = 0, bitlen = 48, hashqty = 4, nelems = 0, bitstore = [0]\<rparr>
                [[0x74, 0x65, 0x73, 0x74]] = Inr bf1
          \<and> ones (bitstore bf1) \<subseteq> ones [210453397632])
   \<and> Has \<lparr>prob = 0, bitlen = 48, hashqty = 4, nelems = 0, bitstore = [210453397632]\<rparr>
         [0x74, 0x65, 0x73, 0x74]
     = Inr (\<lparr>prob = 0, bitlen = 48, hashqty = 4, nelems = 0, bitstore = [210453397632]\<rparr>,
            True, None)"
proof -
  let ?e = "[0x74, 0x65, 0x73, 0x74] :: u8 list"
  let ?f0 = "\<lparr>prob = 0, bitlen = 48, hashqty = 4, nelems = 0, bitstore = [0]\<rparr>"
  let ?f1 = "\<lparr>prob = 0, bitlen = 48, hashqty = 4, nelems = 0, bitstore = [210453397632]\<rparr>"
  have all: "add_all ?f0 ([?e] @ [?e]) = Inr ?f1"
    by (simp add: Add_test Add_test_again)
  have has: "Has ?f1 ?e = Inr (?f1, True, None)"
    by (rule Has_test)
  from bits_monotone [of ?f0 ?e ?f1 None "[?e]" "[?e]" ?f1 True] Add_test all
  have "ones [0] \<subseteq> ones [210453397632]"
    and "\<exists>bf1. add_all ?f0 [?e] = Inr bf1 \<and> ones (bitstore bf1) \<subseteq> ones [210453397632]"
    by simp_all
  moreover from bits_monotone [of ?f1 ?e ?f1 None "[]" "[]" ?f1 True] has
  have "?f1 = ?f1"
    by simp
  ultimately show ?thesis
    using has by simp
qed

text \<open>
  Claim C6: let \<open>pos\<close> be the positions \<^verbatim>\<open>bitpositions\<close> derives from the element with the
  filter's hash count and bit length: as many as the hash count, and the positions whose
  bits \<^verbatim>\<open>Add\<close> sets.
  \<^verbatim>\<open>Has\<close> returns \<^verbatim>\<open>true\<close> only if the bit of every position is 1, and then it does;
  it returns \<^verbatim>\<open>false\<close> at the first position whose bit is 0, whatever the positions
  after it; and the filter it returns is the filter it was given.
\<close>

theorem Has_semantics:
  assumes "bitpositions e (hashqty bf) (bitlen bf) = Inr (pos, None)"
  shows "length pos = unat (hashqty bf)
    \<and> (Add bf e = Inr (bf', None) \<longrightarrow> (\<forall>p \<in> set pos. bit_at (bitstore bf') p))
    \<and> (Has bf e = Inr (bf', True, r) \<longrightarrow> (\<forall>p \<in> set pos. bit_at (bitstore bf) p))
    \<and> ((\<forall>p \<in> set pos. bit_at (bitstore bf) p) \<longrightarrow> Has bf e = Inr (bf, True, None))
    \<and> (pos = pre @ p # post \<and> (\<forall>q \<in> set pre. bit_at (bitstore bf) q)
         \<and> unat p div 64 < length (bitstore bf) \<and> \<not> bit_at (bitstore bf) p
        \<longrightarrow> Has bf e = Inr (bf, False, None))
    \<and> (Has bf e = Inr (bf', b, r) \<longrightarrow> bf' = bf \<and> r = None)"
proof (intro conjI impI)
  show "length pos = unat (hashqty bf)"
    using bitpositions_Inr [OF assms] by simp
next
  assume "Add bf e = Inr (bf', None)"
  then show "\<forall>p \<in> set pos. bit_at (bitstore bf') p"
    using assms by (cases rule: Add_cases) (auto dest: add_loop_sets)
next
  assume "Has bf e = Inr (bf', True, r)"
  then show "\<forall>p \<in> set pos. bit_at (bitstore bf) p"
    using assms by (cases rule: Has_cases) (auto dest: has_loop_True)
next
  assume "\<forall>p \<in> set pos. bit_at (bitstore bf) p"
  then show "Has bf e = Inr (bf, True, None)"
    using assms by (simp add: Has_ok has_loop_all)
next
  assume "pos = pre @ p # post \<and> (\<forall>q \<in> set pre. bit_at (bitstore bf) q)
         \<and> unat p div 64 < length (bitstore bf) \<and> \<not> bit_at (bitstore bf) p"
  then show "Has bf e = Inr (bf, False, None)"
    using assms by (simp add: Has_ok has_loop_first_zero)
next
  assume h: "Has bf e = Inr (bf', b, r)"
  then show "bf' = bf"
    by (cases rule: Has_cases) simp_all
  from h show "r = None"
    using assms by (cases rule: Has_cases) simp_all
qed

theorem Has_semantics_witness:
  "Has \<lparr>prob = 0, bitlen = 48, hashqty = 4, nelems = 0, bitstore = [210453397632]\<rparr>
         [0x74, 0x65, 0x73, 0x74]
     = Inr (\<lparr>prob = 0, bitlen = 48, hashqty = 4, nelems = 0, bitstore = [210453397632]\<rparr>,
            True, None)
   \<and> Has \<lparr>prob = 0, bitlen = 48, hashqty = 4, nelems = 0, bitstore = [206158430336]\<rparr>
         [0x74, 0x65, 0x73, 0x74]
     = Inr (\<lparr>prob = 0, bitlen = 48, hashqty = 4, nelems = 0, bitstore = [206158430336]\<rparr>,
            False, None)"
proof -
  let ?e = "[0x74, 0x65, 0x73, 0x74] :: u8 list"
  let ?f1 = "\<lparr>prob = 0, bitlen = 48, hashqty = 4, nelems = 0, bitstore = [210453397632]\<rparr>"
  let ?f2 = "\<lparr>prob = 0, bitlen = 48, hashqty = 4, nelems = 0, bitstore = [206158430336]\<rparr>"
  have p1: "bitpositions ?e (hashqty ?f1) (bitlen ?f1) = Inr ([7, 36, 32, 37], None)"
    and p2: "bitpositions ?e (hashqty ?f2) (bitlen ?f2) = Inr ([7, 36, 32, 37], None)"
    by (simp_all add: bitpositions_test)
  have "\<forall>p \<in> set [7, 36, 32, 37]. bit_at (bitstore ?f1) p"
    by (simp add: bit_at_test)
  with Has_semantics [OF p1] have "Has ?f1 ?e = Inr (?f1, True, None)"
    by blast
  moreover have "[7, 36, 32, 37] = [7, 36] @ 32 # [37 :: u64]
      \<and> (\<forall>q \<in> set [7, 36]. bit_at (bitstore ?f2) q)
      \<and> unat (32 :: u64) div 64 < length (bitstore ?f2) \<and> \<not> bit_at (bitstore ?f2) 32"
    by (simp add: bit_at_test)
  with Has_semantics [OF p2, where pre = "[7, 36]" and p = 32 and post = "[37]"] have "Has ?f2 ?e = Inr (?f2, False, None)"
    by blast
  ultimately show ?thesis
    by simp
qed

section \<open>Construction\<close>

subsection \<open>Logarithms and sizes\<close>

lemma ln2_less_1: "ln (2 :: real) < 1"
  using ln_add_one_self_less_self [of "1 :: real"] by simp

lemma ln2_greater: "7 / 12 \<le> ln (2 :: real)"
proof -
  have a: "ln (1 - 1 / 4 :: real) \<le> - (1 / 4)"
    by (rule ln_one_minus_pos_upper_bound) simp_all
  have b: "ln (1 - 1 / 3 :: real) \<le> - (1 / 3)"
    by (rule ln_one_minus_pos_upper_bound) simp_all
  have "ln (4 / 3 * (3 / 2) :: real) = ln (4 / 3) + ln (3 / 2)"
    by (subst ln_mult) simp_all
  then have "ln (2 :: real) = ln (4 / 3) + ln (3 / 2)"
    by simp
  also have "ln (4 / 3 :: real) = - ln (1 - 1 / 4)"
    by (simp add: ln_div)
  also have "ln (3 / 2 :: real) = - ln (1 - 1 / 3)"
    by (simp add: ln_div)
  finally show ?thesis
    using a b by linarith
qed

lemma ln_min_float64: "ln min_float64 = - 1074 * ln 2"
  unfolding min_float64_def by (simp only: ln_div ln_realpow) simp

lemma min_float64_pos: "0 < min_float64"
  unfolding min_float64_def by (rule divide_pos_pos) simp_all

lemma trunc_of_int: "trunc (of_int k) = k"
  by (simp add: trunc_def)

lemma uint64_of_float_int:
  "0 \<le> k \<Longrightarrow> k < 2 ^ 64 \<Longrightarrow> uint64_of_float pf (of_int k) = word_of_int k"
  by (simp add: uint64_of_float_def trunc_of_int)

lemma byte_of_float_int:
  "0 \<le> k \<Longrightarrow> k < 2 ^ 8 \<Longrightarrow> byte_of_float pf (of_int k) = word_of_int k"
  by (simp add: byte_of_float_def trunc_of_int)

lemma optLen_nonneg:
  assumes "0 < p" and "p \<le> 1"
  shows "0 \<le> - real N * ln p / (ln 2 * ln 2)"
proof -
  have "ln p \<le> 0"
    using assms by simp
  then have "0 \<le> - real N * ln p"
    by (simp add: mult_nonneg_nonpos)
  moreover have "0 < ln (2 :: real) * ln 2"
    by simp
  ultimately show ?thesis
    by (rule divide_nonneg_pos)
qed

lemma optLen_pos:
  assumes "0 < p" and "p < 1" and "0 < N"
  shows "0 < - real N * ln p / (ln 2 * ln 2)"
proof -
  have "ln p < 0"
    using assms by simp
  then have "0 < - real N * ln p"
    using assms(3) by (simp add: mult_pos_neg)
  moreover have "0 < ln (2 :: real) * ln 2"
    by simp
  ultimately show ?thesis
    by (rule divide_pos_pos)
qed

lemma optLen_upper:
  assumes "min_float64 \<le> p"
  shows "- real N * ln p / (ln 2 * ln 2) \<le> 1842 * real N"
proof -
  have l2: "0 < ln (2 :: real)"
    by simp
  have "ln min_float64 \<le> ln p"
    using assms min_float64_pos by (intro ln_mono) simp_all
  then have "- ln p \<le> 1074 * ln 2"
    by (simp add: ln_min_float64)
  then have "real N * (- ln p) \<le> real N * (1074 * ln 2)"
    by (intro mult_left_mono) simp_all
  moreover have "- real N * ln p = real N * (- ln p)"
    by simp
  ultimately have "- real N * ln p \<le> real N * (1074 * ln 2)"
    by (simp only:)
  moreover have "0 \<le> ln (2 :: real) * ln 2"
    by simp
  ultimately have "- real N * ln p / (ln 2 * ln 2) \<le> real N * (1074 * ln 2) / (ln 2 * ln 2)"
    by (rule divide_right_mono)
  also have "\<dots> = real N * (1074 / ln 2)"
    using l2 by simp
  also have "\<dots> \<le> real N * 1842"
  proof (intro mult_left_mono)
    have "1074 \<le> 1842 * (7 / 12 :: real)"
      by simp
    also have "\<dots> \<le> 1842 * ln 2"
      using ln2_greater by simp
    finally show "1074 / ln 2 \<le> (1842 :: real)"
      using l2 by (simp add: pos_divide_le_eq)
  qed simp
  finally show ?thesis
    by simp
qed

lemma unat_u32_less: "unat (n :: u32) < 4294967296"
  using unsigned_less [of n, where 'a = nat] by simp

lemma optimalBitLen_value:
  assumes "min_float64 \<le> p" and "p \<le> 1"
  shows "unat (optimalBitLen pf n p) = nat \<lceil>- real (unat n) * ln p / (ln 2 * ln 2)\<rceil>"
    and "unat (optimalBitLen pf n p) < 2 ^ 43"
proof -
  define c where "c = \<lceil>- real (unat n) * ln p / (ln 2 * ln 2)\<rceil>"
  have pos: "0 < p"
    using assms(1) min_float64_pos by linarith
  have lo: "0 \<le> c"
    unfolding c_def using optLen_nonneg [OF pos assms(2), of "unat n"] by linarith
  have "- real (unat n) * ln p / (ln 2 * ln 2) \<le> of_int (1842 * int (unat n))"
    using optLen_upper [OF assms(1), of "unat n"] by simp
  then have "c \<le> 1842 * int (unat n)"
    unfolding c_def by (simp only: ceiling_le_iff)
  also have "\<dots> < 1842 * 4294967296"
    using unsigned_less [of n, where 'a = int] by simp
  finally have hi: "c < 7911329759232"
    by simp
  then have hi64: "c < 2 ^ 64"
    by simp
  have "optimalBitLen pf n p = uint64_of_float pf (of_int c)"
    by (simp add: optimalBitLen_def Let_def c_def)
  then have "optimalBitLen pf n p = word_of_int c"
    using uint64_of_float_int [OF lo hi64] by simp
  then have "unat (optimalBitLen pf n p) = nat (take_bit 64 c)"
    by (simp add: unsigned_of_int)
  also have "take_bit 64 c = c"
    using lo hi64 by (simp add: take_bit_int_eq_self)
  finally have v: "unat (optimalBitLen pf n p) = nat c" .
  then show "unat (optimalBitLen pf n p) = nat \<lceil>- real (unat n) * ln p / (ln 2 * ln 2)\<rceil>"
    by (simp only: c_def)
  show "unat (optimalBitLen pf n p) < 2 ^ 43"
    using hi lo by (simp add: v)
qed

lemma optimalBitLen_pos:
  assumes "min_float64 \<le> p" and "p < 1" and "n \<noteq> 0"
  shows "optimalBitLen pf n p \<noteq> 0"
proof -
  have pos: "0 < p"
    using assms(1) min_float64_pos by linarith
  have "0 < unat n"
    using assms(3) by (simp add: unat_gt_0)
  from optLen_pos [OF pos assms(2) this]
  have "0 < \<lceil>- real (unat n) * ln p / (ln 2 * ln 2)\<rceil>"
    by simp
  then have "0 < unat (optimalBitLen pf n p)"
    using optimalBitLen_value(1) [of p pf n] assms by simp
  then show ?thesis
    by (simp add: unat_gt_0)
qed

lemma optimalBitLen_one: "optimalBitLen pf n 1 = 0"
  using uint64_of_float_int [of 0 pf] by (simp add: optimalBitLen_def)

lemma round_up_div:
  "((n::nat) + 63) div 64 = (if n mod 64 = 0 then n div 64 else n div 64 + 1)"
proof -
  have e: "(n + 63) div 64 = n div 64 + (n mod 64 + 63) div 64"
    using div_add1_eq [of n 63 64] by simp
  show ?thesis
  proof (cases "n mod 64 = 0")
    case True
    with e show ?thesis
      by simp
  next
    case False
    have lt: "n mod 64 < 64"
      by simp
    have "64 * 1 \<le> n mod 64 + 63"
      using False by simp
    moreover have "n mod 64 + 63 < 64 * Suc 1"
      using lt by simp
    ultimately have "(n mod 64 + 63) div 64 = 1"
      by (rule div_nat_eqI)
    with e False show ?thesis
      by simp
  qed
qed

lemma unat_buckets_for: "unat (buckets_for bl) = (unat bl + 63) div 64"
proof -
  have d: "unat (bl div 64) = unat bl div 64"
    by (simp add: unat_div)
  have m: "unat (bl mod 64) = unat bl mod 64"
    by (simp add: unat_mod)
  have "unat bl < 2 ^ 64"
    using unsigned_less [of bl, where 'a = nat] by simp
  then have "unat bl div 64 + 1 < 2 ^ 64"
    by simp
  then have p: "unat (bl div 64 + 1) = unat bl div 64 + 1"
    using d by (simp add: unat_word_ariths)
  show ?thesis
  proof (cases "bl mod 64 = 0")
    case True
    then have "unat bl mod 64 = 0"
      using m by simp
    then have "(unat bl + 63) div 64 = unat bl div 64"
      by (simp add: round_up_div)
    moreover have "buckets_for bl = bl div 64"
      using True by (simp only: buckets_for_def) simp
    ultimately show ?thesis
      using d by (simp only:)
  next
    case False
    then have "unat (bl mod 64) \<noteq> 0"
      by (simp only: unat_0_iff not_False_eq_True)
    then have "unat bl mod 64 \<noteq> 0"
      by (simp only: m not_False_eq_True)
    then have "(unat bl + 63) div 64 = unat bl div 64 + 1"
      by (simp add: round_up_div)
    moreover have "buckets_for bl = bl div 64 + 1"
      using False by (simp only: buckets_for_def) simp
    ultimately show ?thesis
      using p by (simp only:)
  qed
qed

lemma New_cases:
  "New pf n p =
     (if n = 0 then Inr (None, Some ErrZeroElements)
      else if p \<le> 0 then Inr (None, Some ErrProbability)
      else if max_slice_len pf < (unat (optimalBitLen pf n p) + 63) div 64
        then Inl MakeSliceLenOutOfRange
      else Inr (Some \<lparr>prob = p, bitlen = optimalBitLen pf n p, hashqty = optimalHashQty pf p,
                      nelems = n,
                      bitstore = replicate ((unat (optimalBitLen pf n p) + 63) div 64) 0\<rparr>, None))"
  using unat_buckets_for [of "optimalBitLen pf n p"]
  by (simp add: New_def Let_def buckets_for_def)

lemma bitpositions_less:
  assumes "bitpositions element k m = Inr (pos, r)"
  shows "\<forall>q \<in> set pos. q < m"
proof (cases "m = 0")
  case True
  with assms show ?thesis
    by (auto simp: bitpositions_zero_bitlen split: if_splits)
next
  case False
  from assms show ?thesis
    using position_less [OF False, of element] by (auto simp: bitpositions_value [OF False])
qed

lemma bitpositions_panic:
  assumes "bitpositions element k m = Inl pnc"
  shows "pnc = DivideByZero \<and> m = 0"
proof (cases "m = 0")
  case True
  with assms show ?thesis
    by (auto simp: bitpositions_zero_bitlen split: if_splits)
next
  case False
  from assms show ?thesis
    by (simp add: bitpositions_value [OF False])
qed

lemma bucket_in_bounds:
  assumes "q < bl"
  shows "unat (q :: u64) div 64 < (unat (bl :: u64) + 63) div 64"
proof -
  have "unat q < unat bl"
    using assms by (simp add: word_less_nat_alt)
  then have "unat q + 1 \<le> unat bl"
    by simp
  then have "(unat q + 1 + 63) div 64 \<le> (unat bl + 63) div 64"
    by (intro div_le_mono) simp
  moreover have "(unat q + 1 + 63) div 64 = unat q div 64 + 1"
    by simp
  ultimately show ?thesis
    by simp
qed

lemma add_loop_total:
  "\<forall>q \<in> set pos. unat q div 64 < length store \<Longrightarrow> \<exists>store'. add_loop pos store = Inr store'"
  by (induction pos arbitrary: store) (simp_all add: add_loop_Cons)

lemma has_loop_total:
  "\<forall>q \<in> set pos. unat q div 64 < length store \<Longrightarrow> \<exists>b. has_loop pos store = Inr (store, b)"
  by (induction pos) (auto simp: has_loop_Cons)

lemma New_Some:
  assumes "New pf n p = Inr (Some bf, None)"
  shows "n \<noteq> 0" and "0 < p"
    and "bf = \<lparr>prob = p, bitlen = optimalBitLen pf n p, hashqty = optimalHashQty pf p,
                nelems = n,
                bitstore = replicate ((unat (optimalBitLen pf n p) + 63) div 64) 0\<rparr>"
  using assms by (auto simp: New_cases split: if_splits)

lemma in_bounds_ops:
  assumes len: "length (bitstore bf) = (unat (bitlen bf) + 63) div 64"
  shows "Add bf e \<noteq> Inl IndexOutOfRange" and "Has bf e \<noteq> Inl IndexOutOfRange"
    and "bitlen bf \<noteq> 0 \<Longrightarrow> \<exists>bf'. Add bf e = Inr (bf', None)"
    and "bitlen bf \<noteq> 0 \<Longrightarrow> \<exists>b. Has bf e = Inr (bf, b, None)"
proof -
  have inb: "\<forall>q \<in> set pos. unat q div 64 < length (bitstore bf)"
    if "bitpositions e (hashqty bf) (bitlen bf) = Inr (pos, r)" for pos r
    using bitpositions_less [OF that] bucket_in_bounds by (simp add: len)
  show "Add bf e \<noteq> Inl IndexOutOfRange"
  proof (cases "bitpositions e (hashqty bf) (bitlen bf)")
    case (Inl pnc)
    then show ?thesis
      using bitpositions_panic [OF Inl] by (simp add: Add_def)
  next
    case (Inr res)
    then obtain pos r where res: "bitpositions e (hashqty bf) (bitlen bf) = Inr (pos, r)"
      by (cases res) simp
    then have "r = None"
      using bitpositions_Inr by blast
    moreover obtain store where "add_loop pos (bitstore bf) = Inr store"
      using add_loop_total [OF inb [OF res]] by blast
    ultimately show ?thesis
      using res by (simp add: Add_def)
  qed
  show "Has bf e \<noteq> Inl IndexOutOfRange"
  proof (cases "bitpositions e (hashqty bf) (bitlen bf)")
    case (Inl pnc)
    then show ?thesis
      using bitpositions_panic [OF Inl] by (simp add: Has_def)
  next
    case (Inr res)
    then obtain pos r where res: "bitpositions e (hashqty bf) (bitlen bf) = Inr (pos, r)"
      by (cases res) simp
    then have "r = None"
      using bitpositions_Inr by blast
    moreover obtain b where "has_loop pos (bitstore bf) = Inr (bitstore bf, b)"
      using has_loop_total [OF inb [OF res]] by blast
    ultimately show ?thesis
      using res by (simp add: Has_def)
  qed
  assume nz: "bitlen bf \<noteq> 0"
  define pos where
    "pos = map (\<lambda>j. word_of_nat (position_spec e j (unat (bitlen bf))) :: u64) [0..<unat (hashqty bf)]"
  have res: "bitpositions e (hashqty bf) (bitlen bf) = Inr (pos, None)"
    unfolding pos_def by (rule bitpositions_value [OF nz])
  obtain store where "add_loop pos (bitstore bf) = Inr store"
    using add_loop_total [OF inb [OF res]] by blast
  then show "\<exists>bf'. Add bf e = Inr (bf', None)"
    using res by (simp add: Add_def)
  obtain b where "has_loop pos (bitstore bf) = Inr (bitstore bf, b)"
    using has_loop_total [OF inb [OF res]] by blast
  then show "\<exists>b. Has bf e = Inr (bf, b, None)"
    using res by (simp add: Has_def)
qed

subsection \<open>The constructor at three probabilities\<close>

text \<open>
  On the platform \<open>amd64\<close>, for one element: at probability 1 the size is 0; at
  probability 2 the size is \<open>- 1 / ln 2\<close>, rounded up to \<open>- 1\<close>, which no \<^verbatim>\<open>uint64\<close>
  holds; at probability \<open>1 / 2\<close> the filter has 2 bits and 1 hash function.
\<close>

lemma inverse_ln2_bounds: "1 < 1 / ln (2 :: real)" "1 / ln (2 :: real) < 2"
proof -
  have pos: "0 < ln (2 :: real)"
    by simp
  show "1 < 1 / ln (2 :: real)"
    using ln2_less_1 pos by (simp add: pos_less_divide_eq)
  have "1 < 2 * ln (2 :: real)"
    using ln2_greater by linarith
  then show "1 / ln (2 :: real) < 2"
    using pos by (simp add: pos_divide_less_eq mult.commute)
qed

lemma optLen_one_two: "\<lceil>- real (unat (1 :: u32)) * ln 2 / (ln 2 * ln 2)\<rceil> = - 1"
proof -
  have "- real (unat (1 :: u32)) * ln 2 / (ln 2 * ln 2) = - (1 / ln 2)"
    by simp
  moreover have "\<lceil>- (1 / ln (2 :: real))\<rceil> = - 1"
    using inverse_ln2_bounds by (intro ceiling_unique) simp_all
  ultimately show ?thesis
    by (simp only:)
qed

lemma optLen_one_half: "\<lceil>- real (unat (1 :: u32)) * ln (1 / 2) / (ln 2 * ln 2)\<rceil> = 2"
proof -
  have "ln (1 / 2 :: real) = - ln 2"
    by (simp add: ln_div)
  then have "- real (unat (1 :: u32)) * ln (1 / 2) / (ln 2 * ln 2) = 1 / ln 2"
    by simp
  moreover have "\<lceil>1 / ln (2 :: real)\<rceil> = 2"
    using inverse_ln2_bounds by (intro ceiling_unique) simp_all
  ultimately show ?thesis
    by (simp only:)
qed

lemma optimalHashQty_one: "optimalHashQty pf 1 = 0"
  using byte_of_float_int [of 0 pf] by (simp add: optimalHashQty_def)

lemma optimalHashQty_half: "optimalHashQty pf (1 / 2) = 1"
proof -
  have "ln (1 / 2 :: real) = - ln 2"
    by (simp add: ln_div)
  then have "- ln (1 / 2 :: real) / ln 2 = 1"
    by simp
  then show ?thesis
    using byte_of_float_int [of 1 pf] by (simp add: optimalHashQty_def)
qed

lemma optimalBitLen_half: "optimalBitLen pf 1 (1 / 2) = 2"
proof -
  have "optimalBitLen pf 1 (1 / 2) = uint64_of_float pf (of_int 2)"
    by (simp only: optimalBitLen_def Let_def optLen_one_half)
  also have "\<dots> = 2"
    using uint64_of_float_int [of 2 pf] by simp
  finally show ?thesis .
qed

lemma optimalBitLen_amd64_two: "optimalBitLen amd64 1 2 = - 1"
proof -
  have "optimalBitLen amd64 1 2 = uint64_of_float amd64 (of_int (- 1))"
    by (simp only: optimalBitLen_def Let_def optLen_one_two)
  also have "\<dots> = - 1"
  proof -
    have "trunc (- 1) = trunc (of_int (- 1))"
      by simp
    then have "trunc (- 1) = - 1"
      by (simp only: trunc_of_int)
    then show ?thesis
      by (simp add: uint64_of_float_def amd64_def)
  qed
  finally show ?thesis .
qed

lemma New_amd64_one:
  "New amd64 1 1 =
     Inr (Some \<lparr>prob = 1, bitlen = 0, hashqty = 0, nelems = 1, bitstore = []\<rparr>, None)"
  by (simp add: New_cases optimalBitLen_one optimalHashQty_one)

lemma New_amd64_two: "New amd64 1 2 = Inl MakeSliceLenOutOfRange"
proof -
  have "unat (- 1 :: u64) = 18446744073709551615"
    by (simp add: unsigned_minus_1_eq_mask mask_eq_exp_minus_1)
  then have "(unat (optimalBitLen amd64 1 2) + 63) div 64 = 288230376151711744"
    by (simp add: optimalBitLen_amd64_two)
  moreover have "max_slice_len amd64 = 35184372088832"
    by (simp add: amd64_def)
  ultimately show ?thesis
    by (simp add: New_cases)
qed

lemma New_amd64_half:
  "New amd64 1 (1 / 2) =
     Inr (Some \<lparr>prob = 1 / 2, bitlen = 2, hashqty = 1, nelems = 1, bitstore = [0]\<rparr>, None)"
proof -
  have "max_slice_len amd64 = 35184372088832"
    by (simp add: amd64_def)
  then show ?thesis
    by (simp add: New_cases optimalBitLen_half optimalHashQty_half)
qed

lemma min_float64_le_half: "min_float64 \<le> 1 / 2"
proof -
  have "(2 :: real) ^ 1 \<le> 2 ^ 1074"
    by (rule power_increasing) simp_all
  then have "1 / (2 :: real) ^ 1074 \<le> 1 / 2 ^ 1"
    by (intro divide_left_mono) simp_all
  then show ?thesis
    by (simp add: min_float64_def)
qed

lemma New_in_range:
  assumes "n \<noteq> 0" and "min_float64 \<le> p" and "p \<le> 1" and "2 ^ 37 \<le> max_slice_len pf"
  shows "\<exists>bf. New pf n p = Inr (Some bf, None)"
proof -
  have pos: "0 < p"
    using assms(2) min_float64_pos by linarith
  have "unat (optimalBitLen pf n p) < 2 ^ 43"
    by (rule optimalBitLen_value(2) [OF assms(2,3)])
  then have "(unat (optimalBitLen pf n p) + 63) div 64 \<le> 2 ^ 37"
    by simp
  then have "\<not> max_slice_len pf < (unat (optimalBitLen pf n p) + 63) div 64"
    using assms(4) by linarith
  then show ?thesis
    using assms(1) pos by (simp add: New_cases)
qed

lemma hash_test_0_mod2: "hash [0x74, 0x65, 0x73, 0x74, 0] 2 = Inr (1, None)"
  by (simp add: hash_eval sha256_test_0)

lemma bitpositions_test_half: "bitpositions [0x74, 0x65, 0x73, 0x74] 1 2 = Inr ([1], None)"
  by (simp add: bitpositions_def bitpositions_loop.simps hash_test_0_mod2)


subsection \<open>The claims on construction\<close>

text \<open>
  Claim C2, as stated, fails in its last part: for a probability above 1 the size
  \<^verbatim>\<open>optimalBitLen\<close> converts to \<^verbatim>\<open>uint64\<close> is negative, the result of the conversion is left
  to the implementation, and on \<open>amd64\<close> \<^verbatim>\<open>New(1, 2.0)\<close> asks \<^verbatim>\<open>make\<close> for \<open>2 ^ 58\<close> buckets
  and panics.
\<close>

theorem New_validation_counterexample: "New amd64 1 2 = Inl MakeSliceLenOutOfRange"
  by (rule New_amd64_two)


text \<open>
  Claim C2, amended: \<^verbatim>\<open>New\<close> returns \<^verbatim>\<open>ErrZeroElements\<close> for every call with \<open>n = 0\<close> and
  \<^verbatim>\<open>ErrProbability\<close> for every call with \<open>n > 0\<close> and a probability of 0 or less. With
  \<open>n > 0\<close> and a probability above 0 it returns no error: it returns a filter, unless
  \<^verbatim>\<open>make\<close> panics on the number of buckets; and it does return a filter for every
  probability from the smallest positive \<^verbatim>\<open>float64\<close> up to 1, on a platform whose \<^verbatim>\<open>make\<close>
  allocates \<open>2 ^ 37\<close> buckets.
\<close>

theorem New_validation:
  "(n = 0 \<longrightarrow> New pf n p = Inr (None, Some ErrZeroElements))
   \<and> (n \<noteq> 0 \<and> p \<le> 0 \<longrightarrow> New pf n p = Inr (None, Some ErrProbability))
   \<and> (n \<noteq> 0 \<and> 0 < p \<longrightarrow>
        New pf n p = Inl MakeSliceLenOutOfRange \<or> (\<exists>bf. New pf n p = Inr (Some bf, None)))
   \<and> (n \<noteq> 0 \<and> min_float64 \<le> p \<and> p \<le> 1 \<and> 2 ^ 37 \<le> max_slice_len pf \<longrightarrow>
        (\<exists>bf. New pf n p = Inr (Some bf, None)))"
proof (intro conjI impI)
  show "New pf n p = Inr (None, Some ErrZeroElements)" if "n = 0"
    using that by (simp add: New_def)
  show "New pf n p = Inr (None, Some ErrProbability)" if "n \<noteq> 0 \<and> p \<le> 0"
    using that by (simp add: New_def)
  show "New pf n p = Inl MakeSliceLenOutOfRange \<or> (\<exists>bf. New pf n p = Inr (Some bf, None))"
    if "n \<noteq> 0 \<and> 0 < p"
    using that by (simp add: New_cases)
  show "\<exists>bf. New pf n p = Inr (Some bf, None)"
    if "n \<noteq> 0 \<and> min_float64 \<le> p \<and> p \<le> 1 \<and> 2 ^ 37 \<le> max_slice_len pf"
    using that New_in_range by blast
qed


theorem New_validation_witness:
  "New amd64 0 (1 / 2) = Inr (None, Some ErrZeroElements)
   \<and> New amd64 1 0 = Inr (None, Some ErrProbability)
   \<and> New amd64 1 (- 1) = Inr (None, Some ErrProbability)
   \<and> (\<exists>bf. New amd64 1 (1 / 2) = Inr (Some bf, None))"
proof -
  have big: "2 ^ 37 \<le> max_slice_len amd64"
    by (simp add: amd64_def)
  have "(1 :: u32) \<noteq> 0 \<and> min_float64 \<le> 1 / 2 \<and> (1 / 2 :: real) \<le> 1"
    using min_float64_le_half by simp
  with big New_validation [of 1 amd64 "1 / 2"]
  have "\<exists>bf. New amd64 1 (1 / 2) = Inr (Some bf, None)"
    by blast
  moreover from New_validation [of 0 amd64 "1 / 2"]
  have "New amd64 0 (1 / 2) = Inr (None, Some ErrZeroElements)"
    by simp
  moreover from New_validation [of 1 amd64 0]
  have "New amd64 1 0 = Inr (None, Some ErrProbability)"
    by simp
  moreover from New_validation [of 1 amd64 "- 1"]
  have "New amd64 1 (- 1) = Inr (None, Some ErrProbability)"
    by simp
  ultimately show ?thesis
    by blast
qed


text \<open>
  Claim C9, as stated, fails: \<^verbatim>\<open>New\<close> accepts the probability 1, for which the bit length
  is 0.
\<close>

theorem New_bitlen_counterexample:
  "New amd64 1 1 =
     Inr (Some \<lparr>prob = 1, bitlen = 0, hashqty = 0, nelems = 1, bitstore = []\<rparr>, None)"
  by (rule New_amd64_one)


text \<open>
  Claim C9, amended: in a filter \<^verbatim>\<open>New\<close> returned for a probability from the smallest
  positive \<^verbatim>\<open>float64\<close> up to 1, the bit length is above 0 when the probability is below 1,
  and 0 when the probability is 1.
\<close>

theorem New_bitlen:
  assumes "New pf n p = Inr (Some bf, None)" and "min_float64 \<le> p" and "p \<le> 1"
  shows "(p < 1 \<longrightarrow> 0 < bitlen bf) \<and> (p = 1 \<longrightarrow> bitlen bf = 0)"
proof -
  note bf = New_Some [OF assms(1)]
  have bl: "bitlen bf = optimalBitLen pf n p"
    by (subst bf(3)) simp
  show ?thesis
  proof (intro conjI impI)
    assume "p < 1"
    from optimalBitLen_pos [OF assms(2) this bf(1)] show "0 < bitlen bf"
      by (simp add: bl word_gt_0)
  next
    assume "p = 1"
    then show "bitlen bf = 0"
      by (simp add: bl optimalBitLen_one)
  qed
qed


theorem New_bitlen_witness:
  "New amd64 1 (1 / 2) =
     Inr (Some \<lparr>prob = 1 / 2, bitlen = 2, hashqty = 1, nelems = 1, bitstore = [0]\<rparr>, None)
   \<and> 0 < bitlen \<lparr>prob = 1 / 2, bitlen = 2, hashqty = 1, nelems = 1, bitstore = [0]\<rparr>
   \<and> bitlen \<lparr>prob = 1, bitlen = 0, hashqty = 0, nelems = 1, bitstore = []\<rparr> = 0"
proof -
  have "(1 / 2 :: real) \<le> 1" and lt: "(1 / 2 :: real) < 1"
    by simp_all
  from New_bitlen [OF New_amd64_half min_float64_le_half this(1)] lt
  have "0 < bitlen \<lparr>prob = 1 / 2, bitlen = 2, hashqty = 1, nelems = 1, bitstore = [0]\<rparr>"
    by blast
  moreover have "min_float64 \<le> 1"
    using min_float64_le_half by linarith
  from New_bitlen [OF New_amd64_one this]
  have "bitlen \<lparr>prob = 1, bitlen = 0, hashqty = 0, nelems = 1, bitstore = []\<rparr> = 0"
    by blast
  ultimately show ?thesis
    using New_amd64_half by blast
qed


text \<open>
  Claim C10: in every filter \<^verbatim>\<open>New\<close> returns, the bit store has the bit length divided by
  64, rounded up, buckets; every position \<^verbatim>\<open>bitpositions\<close> derives for the filter is below
  the bit length and its bucket index is one of the store, so neither \<^verbatim>\<open>Add\<close> nor \<^verbatim>\<open>Has\<close>
  panics on an index out of range; and for a probability below 1 (and not below the
  smallest positive \<^verbatim>\<open>float64\<close>) both return without a panic and without an error.
\<close>

theorem New_in_bounds:
  assumes "New pf n p = Inr (Some bf, None)"
  shows "length (bitstore bf) = (unat (bitlen bf) + 63) div 64
    \<and> (\<forall>pos r. bitpositions e (hashqty bf) (bitlen bf) = Inr (pos, r) \<longrightarrow>
          (\<forall>q \<in> set pos. q < bitlen bf \<and> 0 \<le> fst (bitlocation q 64)
             \<and> fst (bitlocation q 64) < int (length (bitstore bf))))
    \<and> Add bf e \<noteq> Inl IndexOutOfRange \<and> Has bf e \<noteq> Inl IndexOutOfRange
    \<and> (min_float64 \<le> p \<and> p < 1 \<longrightarrow>
          (\<exists>bf'. Add bf e = Inr (bf', None)) \<and> (\<exists>b. Has bf e = Inr (bf, b, None)))"
proof -
  note bf = New_Some [OF assms]
  have bl: "bitlen bf = optimalBitLen pf n p"
    by (subst bf(3)) simp
  have len: "length (bitstore bf) = (unat (bitlen bf) + 63) div 64"
    by (subst (1 2) bf(3)) simp
  have pos: "\<forall>q \<in> set pos. q < bitlen bf \<and> 0 \<le> fst (bitlocation q 64)
      \<and> fst (bitlocation q 64) < int (length (bitstore bf))"
    if "bitpositions e (hashqty bf) (bitlen bf) = Inr (pos, r)" for pos r
    using bitpositions_less [OF that] bucket_in_bounds
    by (simp add: bitlocation_64 len)
  have ok: "(\<exists>bf'. Add bf e = Inr (bf', None)) \<and> (\<exists>b. Has bf e = Inr (bf, b, None))"
    if "min_float64 \<le> p \<and> p < 1"
  proof -
    have "bitlen bf \<noteq> 0"
      using optimalBitLen_pos [of p n pf] that bf(1) by (simp add: bl)
    then show ?thesis
      using in_bounds_ops(3,4) [OF len] by blast
  qed
  show ?thesis
    using len pos in_bounds_ops(1,2) [OF len] ok by blast
qed


theorem New_in_bounds_witness:
  "New amd64 1 (1 / 2) =
     Inr (Some \<lparr>prob = 1 / 2, bitlen = 2, hashqty = 1, nelems = 1, bitstore = [0]\<rparr>, None)
   \<and> length [0 :: u64] = (unat (2 :: u64) + 63) div 64
   \<and> (1 :: u64) < 2 \<and> fst (bitlocation 1 64) < int (length [0 :: u64])
   \<and> Add \<lparr>prob = 1 / 2, bitlen = 2, hashqty = 1, nelems = 1, bitstore = [0]\<rparr>
        [0x74, 0x65, 0x73, 0x74] \<noteq> Inl IndexOutOfRange
   \<and> (\<exists>bf'. Add \<lparr>prob = 1 / 2, bitlen = 2, hashqty = 1, nelems = 1, bitstore = [0]\<rparr>
        [0x74, 0x65, 0x73, 0x74] = Inr (bf', None))
   \<and> (\<exists>b. Has \<lparr>prob = 1 / 2, bitlen = 2, hashqty = 1, nelems = 1, bitstore = [0]\<rparr>
        [0x74, 0x65, 0x73, 0x74]
        = Inr (\<lparr>prob = 1 / 2, bitlen = 2, hashqty = 1, nelems = 1, bitstore = [0]\<rparr>, b, None))"
proof -
  let ?bf = "\<lparr>prob = 1 / 2, bitlen = 2, hashqty = 1, nelems = 1, bitstore = [0]\<rparr>"
  let ?e = "[0x74, 0x65, 0x73, 0x74] :: u8 list"
  note th = New_in_bounds [OF New_amd64_half, of ?e]
  have p: "bitpositions ?e (hashqty ?bf) (bitlen ?bf) = Inr ([1], None)"
    by (simp add: bitpositions_test_half)
  with th have "\<forall>q \<in> set [1 :: u64]. q < bitlen ?bf \<and> 0 \<le> fst (bitlocation q 64)
      \<and> fst (bitlocation q 64) < int (length (bitstore ?bf))"
    by blast
  then have "(1 :: u64) < 2 \<and> fst (bitlocation 1 64) < int (length [0 :: u64])"
    by simp
  moreover have "min_float64 \<le> 1 / 2 \<and> (1 / 2 :: real) < 1"
    using min_float64_le_half by simp
  with th have "(\<exists>bf'. Add ?bf ?e = Inr (bf', None)) \<and> (\<exists>b. Has ?bf ?e = Inr (?bf, b, None))"
    by blast
  moreover from th have "length (bitstore ?bf) = (unat (bitlen ?bf) + 63) div 64"
    and "Add ?bf ?e \<noteq> Inl IndexOutOfRange"
    by blast+
  ultimately show ?thesis
    using New_amd64_half by simp
qed

end
